theory Spec2Isabelle
  imports Main
begin

section \<open>The Twig adapter of a Fractal component library\<close>

text \<open>
  A shallow embedding of \<^verbatim>\<open>src/adapter.js\<close>: the include-path fixer
  \<^verbatim>\<open>fixIncludePath\<close>, the template loader registered under the name
  \<^verbatim>\<open>fractal\<close>, the patched \<^verbatim>\<open>Twig.Template.prototype.render\<close> with its
  \<^verbatim>\<open>setKeys\<close> helper, the cache invalidation handler \<^verbatim>\<open>unCache\<close> and the
  reserved-key injection of the adapter's \<^verbatim>\<open>render\<close> method.

  JavaScript strings are modelled as \<^typ>\<open>string\<close>. The only string operations the
  adapter uses are \<^verbatim>\<open>startsWith\<close>, \<^verbatim>\<open>split('/')\<close>, \<^verbatim>\<open>join('/')\<close> and
  concatenation, which act alike on UTF-16 code units and on bytes.
\<close>

subsection \<open>Strings and arrays of strings\<close>

text \<open>\<^verbatim>\<open>str.startsWith(prefix)\<close>.\<close>

fun startsWith :: "string \<Rightarrow> string \<Rightarrow> bool" where
  "startsWith str [] = True"
| "startsWith [] (p # ps) = False"
| "startsWith (c # cs) (p # ps) = (c = p \<and> startsWith cs ps)"

text \<open>
  \<^verbatim>\<open>str.split(sep)\<close> for a separator of one character. The result is never empty:
  the empty string splits into one empty segment, and a leading separator gives an empty
  first segment. (So the first branch of the \<open>case\<close> below is never taken.)
\<close>

fun js_split :: "char \<Rightarrow> string \<Rightarrow> string list" where
  "js_split sep [] = [[]]"
| "js_split sep (c # cs) =
     (if c = sep then [] # js_split sep cs
      else (case js_split sep cs of
              [] \<Rightarrow> [[c]]
            | w # ws \<Rightarrow> (c # w) # ws))"

text \<open>\<^verbatim>\<open>chunks.join(sep)\<close>.\<close>

fun js_join :: "string \<Rightarrow> string list \<Rightarrow> string" where
  "js_join sep [] = []"
| "js_join sep [x] = x"
| "js_join sep (x # y # ys) = x @ sep @ js_join sep (y # ys)"

text \<open>A truthy string is a non-empty one.\<close>

definition truthy :: "string \<Rightarrow> bool" where
  "truthy s = (s \<noteq> [])"

subsection \<open>JavaScript values, objects and errors\<close>

text \<open>
  Plain objects have an identity and are updated in place, so they live in a store and a
  value refers to one by its address: \<open>Ref\<close>. A plain object is the list of its own
  enumerable string-keyed properties in enumeration order; an array is the list of its
  elements (the adapter never writes to an array). \<open>Num\<close> carries the integral numbers;
  \<open>Opaque\<close> stands for every other value (a non-integral number, a function, an instance
  of a class), which the adapter only passes along: it is neither a string, nor a plain
  object, nor a valid array length.
\<close>

type_synonym addr = nat

datatype jsval =
    Undefined
  | Null
  | Bool bool
  | Num int
  | Str string
  | Arr "jsval list"
  | Ref addr
  | Opaque nat

type_synonym jsobj = "(string \<times> jsval) list"

text \<open>The store lists the objects; an address is an index into it.\<close>

type_synonym store = "jsobj list"

text \<open>
  The errors the adapter can end in. \<open>Error\<close> is the one it throws itself; the others
  are raised by the language: a \<open>ReferenceError\<close> by a name that is not in scope, a
  \<open>RangeError\<close> by an array length that is out of range and by a call stack that is
  used up.
\<close>

datatype js_error =
    Error string
  | TypeError
  | SyntaxError
  | ReferenceError
  | RangeError

text \<open>\<^verbatim>\<open>obj[key]\<close>: a missing property reads as \<^verbatim>\<open>undefined\<close>.\<close>

definition js_get :: "jsobj \<Rightarrow> string \<Rightarrow> jsval" where
  "js_get obj key = (case map_of obj key of None \<Rightarrow> Undefined | Some v \<Rightarrow> v)"

text \<open>
  \<^verbatim>\<open>obj[key] = v\<close>: an existing property keeps its place in the enumeration order, a
  new one is added at the end (the keys the adapter assigns are never integer-like).
\<close>

fun js_set :: "jsobj \<Rightarrow> string \<Rightarrow> jsval \<Rightarrow> jsobj" where
  "js_set [] key v = [(key, v)]"
| "js_set ((k, w) # rest) key v =
     (if k = key then (key, v) # rest else (k, w) # js_set rest key v)"

subsection \<open>The adapter's surroundings\<close>

record view =
  path :: string
  handle :: string
  content :: string

record config =
  pristine :: bool
  handlePrefix :: string
  importContext :: bool

text \<open>
  An entity of the library as the patched render uses it: the object that
  \<^verbatim>\<open>getContext()\<close> returns and the value that \<^verbatim>\<open>toJSON()\<close> returns.
  \<^verbatim>\<open>source.find\<close> yields either a variant (\<^verbatim>\<open>isVariant\<close> is true) or a component,
  which carries the variant that \<^verbatim>\<open>variants().default()\<close> selects.
\<close>

record variant =
  getContext :: addr
  toJSON :: jsval

datatype entity =
    IsVariant variant
  | Component variant

text \<open>
  Everything the adapter reaches through its closure and that is not code of the adapter:
  the library (\<^verbatim>\<open>source.fullPath\<close>, \<^verbatim>\<open>source.find\<close>), the adapter base class
  (\<^verbatim>\<open>self.views\<close>, \<^verbatim>\<open>self.getView\<close>), Node's \<^verbatim>\<open>Path.join\<close> and
  \<^verbatim>\<open>Path.relative\<close>, Fractal's \<^verbatim>\<open>utils.defaultsDeep\<close>, the application's
  \<^verbatim>\<open>config()\<close>, the adapter's own configuration, and the regular expression
  engine: \<open>handle_replace a prefix h\<close> is
  \<^verbatim>\<open>h.replace(new RegExp(`^\\${prefix}`), '@')\<close>, which may raise a syntax error.
  \<open>defaultsDeep a obj defaults s\<close> is \<^verbatim>\<open>utils.defaultsDeep(obj, defaults)\<close> in the
  store \<open>s\<close>: the error it raises, or the address of the merged object and the store
  after the call. \<open>cloneDeep_error a context s\<close> is the error that lodash's
  \<^verbatim>\<open>_.cloneDeep(context)\<close> raises in the store \<open>s\<close>, if it raises one: it recurses
  into the context and runs out of call stack on one that is nested too deeply.
  The functions among them are parameters: every theorem below holds for all of them.
\<close>

record adapter =
  fullPath :: string
  views :: "view list"
  getView :: "string \<Rightarrow> view option"
  source_find :: "string \<Rightarrow> entity option"
  path_join :: "string \<Rightarrow> string \<Rightarrow> string"
  path_relative :: "string \<Rightarrow> string \<Rightarrow> string"
  cloneDeep_error :: "addr \<Rightarrow> store \<Rightarrow> js_error option"
  defaultsDeep :: "addr \<Rightarrow> addr \<Rightarrow> store \<Rightarrow> js_error + addr \<times> store"
  handle_replace :: "string \<Rightarrow> string \<Rightarrow> js_error + string"
  app_config :: jsval
  cfg :: config

subsection \<open>fixIncludePath\<close>

definition firstLevelFolderNames :: "string list" where
  "firstLevelFolderNames = [''atoms'', ''molecules'', ''organisms'']"

text \<open>
  The loop \<^verbatim>\<open>for (var i = chunks.length - 1; i >= 0; i--)\<close>. The second argument
  is \<open>i + 1\<close>, so the loop starts at the length of the array and stops at \<open>0\<close>; the
  result is the index at which the loop breaks, if it does.
\<close>

fun fix_loop :: "string list \<Rightarrow> nat \<Rightarrow> nat option" where
  "fix_loop chunks 0 = None"
| "fix_loop chunks (Suc i) =
     (if chunks ! i \<in> set firstLevelFolderNames then Some i else fix_loop chunks i)"

text \<open>
  \<^verbatim>\<open>newLocation\<close> is declared inside the loop body with \<^verbatim>\<open>var\<close>, so it is
  \<^verbatim>\<open>undefined\<close> (\<open>None\<close>) at the \<^verbatim>\<open>return\<close> when the loop never breaks.
  When a segment matches, line 201 evaluates \<^verbatim>\<open>source.fullPath\<close>. The name
  \<^verbatim>\<open>source\<close> is a parameter of the constructor and of nothing else: in the method
  \<^verbatim>\<open>fixIncludePath\<close> it is not in scope (a method of the same class reads
  \<^verbatim>\<open>self._source.fullPath\<close> instead), so the evaluation raises a
  \<open>ReferenceError\<close> before \<^verbatim>\<open>Path.join\<close> is called.
\<close>

definition fixIncludePath :: "adapter \<Rightarrow> string \<Rightarrow> js_error + string option" where
  "fixIncludePath a location =
     (let locationPathChunks = js_split CHR ''/'' location in
      case fix_loop locationPathChunks (length locationPathChunks) of
        None \<Rightarrow> Inr None
      | Some i \<Rightarrow>
          (let newLocationChunks = drop i locationPathChunks in
           Inl ReferenceError))"

subsection \<open>The template loader\<close>

text \<open>\<^verbatim>\<open>isHandle(str)\<close>: \<^verbatim>\<open>str && str.startsWith(self._config.handlePrefix)\<close>.\<close>

definition isHandle :: "adapter \<Rightarrow> string \<Rightarrow> bool" where
  "isHandle a str = (truthy str \<and> startsWith str (handlePrefix (cfg a)))"

text \<open>
  \<^verbatim>\<open>_.find(self.views, {path: p})\<close>: the first view whose \<^verbatim>\<open>path\<close> is \<open>p\<close>.
  Every view has a path, so none matches when \<open>p\<close> is \<^verbatim>\<open>undefined\<close>.
\<close>

definition find_by_path :: "view list \<Rightarrow> string option \<Rightarrow> view option" where
  "find_by_path vs p = List.find (\<lambda>v. Some (path v) = p) vs"

text \<open>
  The parameters of a template. \<^verbatim>\<open>precompiled\<close> is the source handed to the
  adapter's \<^verbatim>\<open>render\<close>, \<^verbatim>\<open>data\<close> the source the loader settles on.
\<close>

record twig_params =
  precompiled :: "string option"
  data :: "string option"

definition truthy_opt :: "string option \<Rightarrow> bool" where
  "truthy_opt v = (case v of None \<Rightarrow> False | Some str \<Rightarrow> truthy str)"

definition notFound :: "string \<Rightarrow> js_error" where
  "notFound location = Error (''Template '' @ location @
     '' not found; make sure you add a leading forward slash to your path if you'' @ [CHR 0x27] @
     ''re trying to include a component -> include /atoms/button/button.twig for instance'')"

text \<open>Lines 36 and 37 of the loader: the view a location stands for, if any.\<close>

definition loader_view :: "adapter \<Rightarrow> string \<Rightarrow> js_error + view option" where
  "loader_view a location =
     (case (if startsWith location ''/'' then fixIncludePath a location
            else Inr (Some (path_join a (fullPath a) location))) of
        Inl err \<Rightarrow> Inl err
      | Inr componentPath \<Rightarrow>
          Inr (if isHandle a location then getView a location
               else find_by_path (views a) componentPath))"

text \<open>
  The loader registered as \<^verbatim>\<open>fractal\<close>. Its result stands for
  \<^verbatim>\<open>new Twig.Template(params)\<close>.
\<close>

definition loader :: "adapter \<Rightarrow> string \<Rightarrow> twig_params \<Rightarrow> js_error + twig_params" where
  "loader a location params =
     (if truthy_opt (precompiled params) then Inr (params\<lparr>data := precompiled params\<rparr>)
      else
        (case loader_view a location of
           Inl err \<Rightarrow> Inl err
         | Inr None \<Rightarrow> Inl (notFound location)
         | Inr (Some view) \<Rightarrow> Inr (params\<lparr>data := Some (content view)\<rparr>)))"

subsection \<open>Regenerating the key index: setKeys\<close>

text \<open>
  The key lodash hands to an iteratee of \<^verbatim>\<open>_.map\<close> or \<^verbatim>\<open>_.each\<close>: the name of an
  own property, or an index when the collection is array-like.
\<close>

datatype jskey = StrKey string | IdxKey nat

text \<open>
  lodash takes an object for array-like when its \<^verbatim>\<open>length\<close> is a number that is a
  non-negative integer up to \<^verbatim>\<open>Number.MAX_SAFE_INTEGER\<close>, and then iterates over the
  indices \<open>0 ..< length\<close> instead of the object's own keys, which it otherwise takes
  in the order of \<^verbatim>\<open>Object.keys\<close>.
\<close>

definition isLength :: "jsval \<Rightarrow> bool" where
  "isLength v = (case v of Num n \<Rightarrow> 0 \<le> n \<and> n \<le> 9007199254740991 | _ \<Rightarrow> False)"

definition isArrayLike :: "jsobj \<Rightarrow> bool" where
  "isArrayLike obj = isLength (js_get obj ''length'')"

definition lodash_keys :: "jsobj \<Rightarrow> jskey list" where
  "lodash_keys obj =
     (if isArrayLike obj
      then (case js_get obj ''length'' of Num n \<Rightarrow> map IdxKey [0..<nat n] | _ \<Rightarrow> [])
      else map StrKey (map fst obj))"

text \<open>
  For an array-like collection \<^verbatim>\<open>_.map\<close> first allocates the array of its results,
  \<^verbatim>\<open>Array(collection.length)\<close>, which raises a \<open>RangeError\<close> when the length is
  above \<open>2\<^sup>3\<^sup>2 - 1\<close>.
\<close>

definition map_raises :: "jsobj \<Rightarrow> bool" where
  "map_raises obj =
     (isArrayLike obj \<and>
      (case js_get obj ''length'' of Num n \<Rightarrow> 4294967295 < n | _ \<Rightarrow> False))"

text \<open>
  \<^verbatim>\<open>_.compact\<close> drops the falsey values. Here it only ever sees what the iteratee
  below returns, a string or \<^verbatim>\<open>undefined\<close>.
\<close>

fun falsey :: "jsval \<Rightarrow> bool" where
  "falsey Undefined = True"
| "falsey Null = True"
| "falsey (Bool b) = (\<not> b)"
| "falsey (Num n) = (n = 0)"
| "falsey (Str s) = (s = [])"
| "falsey _ = False"

definition lodash_compact :: "jsval list \<Rightarrow> jsval list" where
  "lodash_compact xs = filter (\<lambda>x. \<not> falsey x) xs"

text \<open>
  The iteratee of \<^verbatim>\<open>_.map\<close> in \<^verbatim>\<open>setKeys\<close>:
  \<^verbatim>\<open>(_.isString(key) && ! key.startsWith('_')) ? key : undefined\<close>.
\<close>

fun keyIteratee :: "jskey \<Rightarrow> jsval" where
  "keyIteratee (StrKey key) = (if \<not> startsWith key ''_'' then Str key else Undefined)"
| "keyIteratee (IdxKey i) = Undefined"

text \<open>
  The value assigned to \<^verbatim>\<open>obj._keys\<close>: \<^verbatim>\<open>_.compact(_.map(obj, iteratee))\<close>.
\<close>

definition computed_keys :: "jsobj \<Rightarrow> jsval" where
  "computed_keys obj = Arr (lodash_compact (map keyIteratee (lodash_keys obj)))"

text \<open>
  The test of the iteratee of \<^verbatim>\<open>_.each\<close> in \<^verbatim>\<open>setKeys\<close>,
  \<^verbatim>\<open>_.isPlainObject(val) && (_.isString(key) && ! key.startsWith('_'))\<close>: the object
  to call \<^verbatim>\<open>setKeys\<close> on, if the test holds.
\<close>

definition nested_object :: "string \<Rightarrow> jsval \<Rightarrow> addr option" where
  "nested_object key val =
     (case val of
        Ref nested \<Rightarrow> if \<not> startsWith key ''_'' then Some nested else None
      | _ \<Rightarrow> None)"

text \<open>
  \<^verbatim>\<open>setKeys(obj)\<close> in the store \<open>s\<close>. It assigns \<^verbatim>\<open>obj._keys\<close> and then walks
  over \<^verbatim>\<open>obj\<close> with \<^verbatim>\<open>_.each\<close>: \<open>setKeys_each\<close> is that walk over the keys that
  \<^verbatim>\<open>_.each\<close> has taken from the object when it starts, reading the value of each key
  when it comes to it. Over an array-like object \<^verbatim>\<open>_.each\<close> passes indices, which are
  no strings, so nothing is descended into.

  The function calls itself, and the objects may refer to each other in a cycle, so the
  call stack may run out, which raises a \<open>RangeError\<close>. The first argument is the number
  of calls of \<^verbatim>\<open>setKeys\<close> that the stack has room for.
\<close>

fun setKeys :: "nat \<Rightarrow> addr \<Rightarrow> store \<Rightarrow> js_error + store"
  and setKeys_each :: "nat \<Rightarrow> string list \<Rightarrow> addr \<Rightarrow> store \<Rightarrow> js_error + store" where
  "setKeys 0 obj s = Inl RangeError"
| "setKeys (Suc depth) obj s =
     (if map_raises (s ! obj) then Inl RangeError
      else
        (let s1 = s[obj := js_set (s ! obj) ''_keys'' (computed_keys (s ! obj))]
         in if isArrayLike (s1 ! obj) then Inr s1
            else setKeys_each depth (map fst (s1 ! obj)) obj s1))"
| "setKeys_each depth [] obj s = Inr s"
| "setKeys_each depth (key # keys) obj s =
     (case nested_object key (js_get (s ! obj) key) of
        None \<Rightarrow> setKeys_each depth keys obj s
      | Some nested \<Rightarrow>
          (case setKeys depth nested s of
             Inl err \<Rightarrow> Inl err
           | Inr s' \<Rightarrow> setKeys_each depth keys obj s'))"

text \<open>
  The objects on which \<^verbatim>\<open>setKeys\<close> is called in the course of one call, the outermost
  first, in the order of the calls. A call that raises ends the list.
\<close>

fun setKeys_visits :: "nat \<Rightarrow> addr \<Rightarrow> store \<Rightarrow> addr list"
  and each_visits :: "nat \<Rightarrow> string list \<Rightarrow> addr \<Rightarrow> store \<Rightarrow> addr list" where
  "setKeys_visits 0 obj s = []"
| "setKeys_visits (Suc depth) obj s =
     obj #
     (if map_raises (s ! obj) then []
      else
        (let s1 = s[obj := js_set (s ! obj) ''_keys'' (computed_keys (s ! obj))]
         in if isArrayLike (s1 ! obj) then []
            else each_visits depth (map fst (s1 ! obj)) obj s1))"
| "each_visits depth [] obj s = []"
| "each_visits depth (key # keys) obj s =
     (case nested_object key (js_get (s ! obj) key) of
        None \<Rightarrow> each_visits depth keys obj s
      | Some nested \<Rightarrow>
          setKeys_visits depth nested s @
          (case setKeys depth nested s of
             Inl err \<Rightarrow> []
           | Inr s' \<Rightarrow> each_visits depth keys obj s'))"

text \<open>An object after the assignment of \<^verbatim>\<open>_keys\<close> in \<^verbatim>\<open>setKeys\<close>.\<close>

definition with_keys :: "jsobj \<Rightarrow> jsobj" where
  "with_keys obj = js_set obj ''_keys'' (computed_keys obj)"

text \<open>Two stores that differ at most in what the objects hold under \<^verbatim>\<open>_keys\<close>.\<close>

definition same_but_keys :: "store \<Rightarrow> store \<Rightarrow> bool" where
  "same_but_keys s t =
     (length s = length t \<and> (\<forall>x < length s. with_keys (s ! x) = with_keys (t ! x)))"

text \<open>The error a call ended in, if it did.\<close>

definition raised :: "js_error + 'a \<Rightarrow> js_error option" where
  "raised r = (case r of Inl err \<Rightarrow> Some err | Inr v \<Rightarrow> None)"

subsection \<open>References between objects\<close>

text \<open>The addresses a value holds.\<close>

fun refs :: "jsval \<Rightarrow> addr set" where
  "refs (Ref x) = {x}"
| "refs (Arr xs) = (\<Union>x \<in> set xs. refs x)"
| "refs _ = {}"


text \<open>The objects that the walk of \<^verbatim>\<open>setKeys\<close> may go to from the object at \<open>x\<close>.\<close>

definition follows :: "store \<Rightarrow> addr \<Rightarrow> addr set" where
  "follows s x = {n. \<exists>key. nested_object key (js_get (s ! x) key) = Some n}"

text \<open>Every object that the walk of \<^verbatim>\<open>setKeys\<close> may go to exists.\<close>

definition well_linked :: "store \<Rightarrow> bool" where
  "well_linked s = (\<forall>x < length s. follows s x \<subseteq> {..<length s})"


subsection \<open>Copying and merging\<close>

text \<open>
  Where it returns, \<^verbatim>\<open>_.cloneDeep(context)\<close> returns a copy of the object and of
  everything below it, in which the copies refer to each other as the originals do. The
  model copies every object of the store, each to the address of the original plus the
  length of the store, and moves the references in the copies along; the copies of
  objects that \<open>context\<close> does not reach are garbage that nothing refers to.
\<close>

fun shift :: "nat \<Rightarrow> jsval \<Rightarrow> jsval" where
  "shift n (Ref x) = Ref (x + n)"
| "shift n (Arr xs) = Arr (map (shift n) xs)"
| "shift n v = v"

definition clone_store :: "store \<Rightarrow> store" where
  "clone_store s = s @ map (map (\<lambda>(key, val). (key, shift (length s) val))) s"

definition cloneDeep :: "adapter \<Rightarrow> addr \<Rightarrow> store \<Rightarrow> js_error + addr \<times> store" where
  "cloneDeep a context s =
     (case cloneDeep_error a context s of
        Some err \<Rightarrow> Inl err
      | None \<Rightarrow> Inr (context + length s, clone_store s))"


subsection \<open>The patched template render\<close>

text \<open>Lines 59 to 68: the handle of the template whose \<^verbatim>\<open>id\<close> is \<open>tid\<close>.\<close>

definition template_handle :: "adapter \<Rightarrow> string \<Rightarrow> string option" where
  "template_handle a tid =
     (if isHandle a tid then Some tid
      else (case find_by_path (views a) (Some (path_join a (fullPath a) tid)) of
              None \<Rightarrow> None
            | Some view \<Rightarrow> Some (handle view)))"

text \<open>
  Lines 57 to 73: the entity \<^verbatim>\<open>source.find\<close> returns for the template, when the
  adapter is not pristine, the template has an identity and a handle is found for it.
\<close>

definition findEntity :: "adapter \<Rightarrow> string option \<Rightarrow> js_error + entity option" where
  "findEntity a this_id =
     (case this_id of
        None \<Rightarrow> Inr None
      | Some tid \<Rightarrow>
          if \<not> pristine (cfg a) \<and> truthy tid then
            (case template_handle a tid of
               None \<Rightarrow> Inr None
             | Some h \<Rightarrow>
                 if truthy h then
                   (case handle_replace a (handlePrefix (cfg a)) h of
                      Inl err \<Rightarrow> Inl err
                    | Inr ref \<Rightarrow> Inr (source_find a ref))
                 else Inr None)
          else Inr None)"

text \<open>\<^verbatim>\<open>entity.isVariant ? entity : entity.variants().default()\<close>.\<close>

fun selectVariant :: "entity \<Rightarrow> variant" where
  "selectVariant (IsVariant v) = v"
| "selectVariant (Component d) = d"

text \<open>
  Lines 76 and 77: the merged context, a new value of the local variable
  \<^verbatim>\<open>context\<close>, with \<^verbatim>\<open>_self\<close> assigned. The copy is made before
  \<^verbatim>\<open>utils.defaultsDeep\<close> is called, and an error of either call leaves the render.
\<close>

definition merge_context ::
  "adapter \<Rightarrow> variant \<Rightarrow> addr \<Rightarrow> store \<Rightarrow> js_error + addr \<times> store" where
  "merge_context a entity context s =
     (case cloneDeep a context s of
        Inl err \<Rightarrow> Inl err
      | Inr (copy, s1) \<Rightarrow>
          (case defaultsDeep a copy (getContext entity) s1 of
             Inl err \<Rightarrow> Inl err
           | Inr (context', s2) \<Rightarrow>
               Inr (context', s2[context' := js_set (s2 ! context') ''_self'' (toJSON entity)])))"

text \<open>
  What the patched render does before it calls the original render: the reference it
  passes on as \<^verbatim>\<open>context\<close>, and the store. \<open>depth\<close> is the room on the call stack
  for \<^verbatim>\<open>setKeys\<close>.
\<close>

definition patchContext ::
  "nat \<Rightarrow> adapter \<Rightarrow> string option \<Rightarrow> addr \<Rightarrow> store \<Rightarrow> js_error + (addr \<times> store)" where
  "patchContext depth a tid context s =
     (case findEntity a tid of
        Inl err \<Rightarrow> Inl err
      | Inr None \<Rightarrow> Inr (context, s)
      | Inr (Some found) \<Rightarrow>
          (let entity = selectVariant found in
           if importContext (cfg a) then
             (case merge_context a entity context s of
                Inl err \<Rightarrow> Inl err
              | Inr (context', s3) \<Rightarrow>
                  (case setKeys depth context' s3 of
                     Inl err \<Rightarrow> Inl err
                   | Inr s4 \<Rightarrow> Inr (context', s4)))
           else Inr (context, s)))"

text \<open>
  The patched \<^verbatim>\<open>Twig.Template.prototype.render\<close>; \<open>original\<close> is the render it
  replaces.
\<close>

definition patched_render ::
  "(addr \<Rightarrow> store \<Rightarrow> 'r) \<Rightarrow> nat \<Rightarrow> adapter \<Rightarrow> string option \<Rightarrow> addr \<Rightarrow> store \<Rightarrow> js_error + 'r" where
  "patched_render original depth a tid context s =
     (case patchContext depth a tid context s of
        Inl err \<Rightarrow> Inl err
      | Inr (context', s') \<Rightarrow> Inr (original context' s'))"

subsection \<open>Cache invalidation: unCache\<close>

text \<open>
  The events carry a view or the path of one. The registry maps the name of a template
  to the compiled template, an object, so \<^verbatim>\<open>registry[key]\<close> is truthy exactly when
  the registry has an entry under the key.
\<close>

datatype changed = ViewPath string | ViewObject view

definition unCache :: "adapter \<Rightarrow> changed \<Rightarrow> (string \<rightharpoonup> 't) \<Rightarrow> (string \<rightharpoonup> 't)" where
  "unCache a view registry =
     (let p = path_relative a (fullPath a)
                (case view of ViewPath str \<Rightarrow> str | ViewObject v \<Rightarrow> path v);
          registry1 =
            (case view of
               ViewPath str \<Rightarrow> registry
             | ViewObject v \<Rightarrow>
                 if truthy (handle v) \<and> registry (handle v) \<noteq> None
                 then registry((handle v) := None) else registry)
      in if registry1 p \<noteq> None then registry1(p := None) else registry1)"

subsection \<open>The reserved keys of render\<close>

text \<open>\<open>context\<close> is the address of the context object that the caller passes.\<close>

record meta =
  meta_self :: jsval
  meta_target :: jsval
  meta_env :: jsval

definition setEnv :: "string \<Rightarrow> jsval \<Rightarrow> addr \<Rightarrow> store \<Rightarrow> store" where
  "setEnv key val context s =
     (if js_get (s ! context) key = Undefined \<and> val \<noteq> Undefined
      then s[context := js_set (s ! context) key val] else s)"

text \<open>\<^verbatim>\<open>meta = meta || {}\<close>: without \<^verbatim>\<open>meta\<close> every field reads as \<^verbatim>\<open>undefined\<close>.\<close>

definition meta_or_empty :: "meta option \<Rightarrow> meta" where
  "meta_or_empty meta0 =
     (case meta0 of
        None \<Rightarrow> \<lparr>meta_self = Undefined, meta_target = Undefined, meta_env = Undefined\<rparr>
      | Some m \<Rightarrow> m)"

text \<open>
  The statements of \<^verbatim>\<open>render\<close> that come before the promise: the default for
  \<^verbatim>\<open>meta\<close> and the four calls of \<^verbatim>\<open>setEnv\<close>. The promise then hands the same
  reference to the engine.
\<close>

definition render :: "adapter \<Rightarrow> meta option \<Rightarrow> addr \<Rightarrow> store \<Rightarrow> store" where
  "render a meta0 context s =
     (let meta = meta_or_empty meta0
      in if \<not> pristine (cfg a) then
           (let s1 = setEnv ''_self'' (meta_self meta) context s;
                s2 = setEnv ''_target'' (meta_target meta) context s1;
                s3 = setEnv ''_env'' (meta_env meta) context s2
            in setEnv ''_config'' (app_config a) context s3)
         else s)"

text \<open>The reserved keys with the values \<^verbatim>\<open>render\<close> has for them.\<close>

definition reserved :: "adapter \<Rightarrow> meta option \<Rightarrow> (string \<times> jsval) list" where
  "reserved a meta0 =
     [(''_self'', meta_self (meta_or_empty meta0)),
      (''_target'', meta_target (meta_or_empty meta0)),
      (''_env'', meta_env (meta_or_empty meta0)),
      (''_config'', app_config a)]"

subsection \<open>A small library\<close>

text \<open>
  An adapter with the default configuration over a library of two components, rooted at
  \<^verbatim>\<open>/lib\<close>, on which the theorems below are tried out. It joins two paths with a
  slash and makes a path relative by dropping the root and the slash after it, which
  is what \<^verbatim>\<open>Path.join\<close> and \<^verbatim>\<open>Path.relative\<close> return for the paths used below: the
  root \<^verbatim>\<open>/lib\<close>, a second path without dots that does not start or end with a slash,
  and a path under the root. Its handle prefix \<^verbatim>\<open>@\<close> is replaced by \<^verbatim>\<open>@\<close>, and its
  contexts are shallow enough for \<^verbatim>\<open>_.cloneDeep\<close> to return. Its merge makes a new
  object: the keys of the defaults first, then the other keys of the object, and the
  value of the object where both have the key. On objects that have no key in common
  this is what \<^verbatim>\<open>utils.defaultsDeep\<close> returns; what a key holds is passed on as it is,
  so a nested object is shared with the argument it comes from.
\<close>

definition button_view :: view where
  "button_view = \<lparr>path = ''/lib/atoms/button/button.twig'', handle = ''@button'',
     content = ''<button>{{ label }}</button>''\<rparr>"

definition card_view :: view where
  "card_view = \<lparr>path = ''/lib/molecules/card/card.twig'', handle = ''@card'',
     content = ''<div>{% include /atoms/button/button.twig %}</div>''\<rparr>"

definition button_default :: variant where
  "button_default = \<lparr>getContext = 2, toJSON = Ref 3\<rparr>"

definition demo_merge :: "addr \<Rightarrow> addr \<Rightarrow> store \<Rightarrow> addr \<times> store" where
  "demo_merge obj defaults s =
     (length s,
      s @ [map (\<lambda>(key, val).
                 (key, if key \<in> fst ` set (s ! obj) then js_get (s ! obj) key else val))
             (s ! defaults) @
           filter (\<lambda>(key, val). key \<notin> fst ` set (s ! defaults)) (s ! obj)])"

definition demo :: adapter where
  "demo = \<lparr>fullPath = ''/lib'',
     views = [button_view, card_view],
     getView = (\<lambda>h. List.find (\<lambda>v. handle v = h) [button_view, card_view]),
     source_find = (\<lambda>r. if r = ''@button'' then Some (Component button_default) else None),
     path_join = (\<lambda>p q. p @ ''/'' @ q),
     path_relative = (\<lambda>p q. drop (Suc (length p)) q),
     cloneDeep_error = (\<lambda>context s. None),
     defaultsDeep = (\<lambda>obj defaults s. Inr (demo_merge obj defaults s)),
     handle_replace = (\<lambda>prefix h. Inr h),
     app_config = Ref 2,
     cfg = \<lparr>pristine = False, handlePrefix = ''@'', importContext = True\<rparr>\<rparr>"


text \<open>
  The \<^verbatim>\<open>meta\<close> of a render call and its store: the context of the page at \<open>0\<close>,
  the entity that is rendered at \<open>1\<close>, the configuration of the application at \<open>2\<close>.
\<close>

definition page_meta :: meta where
  "page_meta = \<lparr>meta_self = Ref 1, meta_target = Undefined, meta_env = Str ''server''\<rparr>"

definition page_store :: store where
  "page_store =
     [[(''title'', Str ''Home''), (''_env'', Null)],
      [(''handle'', Str ''card'')],
      [(''project'', Str ''demo'')]]"



text \<open>
  A store in which two keys of the object at \<open>0\<close> hold the same nested object, and a key
  with an underscore holds another.
\<close>

definition shared_store :: store where
  "shared_store =
     [[(''title'', Str ''Home''), (''_meta'', Ref 1), (''item'', Ref 2), (''also'', Ref 2)],
      [(''draft'', Bool True)],
      [(''name'', Str ''n''), (''_id'', Num 7)]]"

section \<open>Properties\<close>

subsection \<open>The path fixer\<close>

lemma fix_loop_None_iff:
  "fix_loop chunks n = None \<longleftrightarrow> (\<forall>j<n. chunks ! j \<notin> set firstLevelFolderNames)"
  by (induction n) (auto simp: less_Suc_eq)

lemma fix_loop_Some_iff:
  "fix_loop chunks n = Some i \<longleftrightarrow>
     i < n \<and> chunks ! i \<in> set firstLevelFolderNames \<and>
     (\<forall>j. i < j \<and> j < n \<longrightarrow> chunks ! j \<notin> set firstLevelFolderNames)"
proof (induction n)
  case 0
  show ?case by simp
next
  case (Suc n)
  show ?case
  proof (cases "chunks ! n \<in> set firstLevelFolderNames")
    case True
    have "i = n" if "i < Suc n" "\<forall>j. i < j \<and> j < Suc n \<longrightarrow> chunks ! j \<notin> set firstLevelFolderNames"
    proof (rule ccontr)
      assume "i \<noteq> n"
      with that(1) have "i < n" by simp
      with that(2) have "chunks ! n \<notin> set firstLevelFolderNames" by simp
      with True show False by simp
    qed
    with True show ?thesis by auto
  next
    case False
    have "i \<noteq> n" if "chunks ! i \<in> set firstLevelFolderNames"
      using that False by auto
    with False Suc show ?thesis
      by (auto simp: less_Suc_eq)
  qed
qed

lemma js_split_not_Nil: "js_split sep s \<noteq> []"
  by (induction s) (auto split: list.splits)

lemma js_split_append:
  "js_split sep (p @ sep # r) = js_split sep p @ js_split sep r"
proof (induction p)
  case Nil
  show ?case by simp
next
  case (Cons c p)
  then show ?case
    using js_split_not_Nil [of sep p] by (cases "js_split sep p") auto
qed

lemma find_by_path_None: "find_by_path vs None = None"
  by (simp add: find_by_path_def find_None_iff)

text \<open>
  C1, as the code has it. When no segment of a location is one of the first-level folder
  names, \<^verbatim>\<open>fixIncludePath\<close> raises nothing: it returns \<^verbatim>\<open>undefined\<close>. The failure
  shows only in the loader: for a location that starts with a slash and is no handle, and
  without precompiled source, no view has the path \<^verbatim>\<open>undefined\<close>, and the loader
  throws its not-found error.
\<close>

theorem fixIncludePath_unmatched_undefined:
  assumes "\<forall>seg \<in> set (js_split CHR ''/'' location). seg \<notin> set firstLevelFolderNames"
  shows "fixIncludePath a location = Inr None \<and>
    (startsWith location ''/'' \<and> \<not> isHandle a location \<and> \<not> truthy_opt (precompiled params)
      \<longrightarrow> loader a location params = Inl (notFound location))"
proof -
  have "fix_loop (js_split CHR ''/'' location) (length (js_split CHR ''/'' location)) = None"
    using assms by (simp add: fix_loop_None_iff)
  then have undefined: "fixIncludePath a location = Inr None"
    by (simp add: fixIncludePath_def)
  then have "loader_view a location = Inr None"
    if "startsWith location ''/''" "\<not> isHandle a location"
    using that by (simp add: loader_view_def find_by_path_None)
  with undefined show ?thesis
    by (simp add: loader_def)
qed

theorem fixIncludePath_unmatched_undefined_witness:
  "fixIncludePath demo ''/foo/bar.twig'' = Inr None \<and>
   loader demo ''/foo/bar.twig'' \<lparr>precompiled = None, data = None\<rparr> = Inl (notFound ''/foo/bar.twig'')"
proof -
  have segs: "js_split CHR ''/'' ''/foo/bar.twig'' = ['''', ''foo'', ''bar.twig'']"
    by simp
  have h: "\<forall>seg \<in> set (js_split CHR ''/'' ''/foo/bar.twig''). seg \<notin> set firstLevelFolderNames"
    unfolding segs by (simp add: firstLevelFolderNames_def)
  have g: "startsWith ''/foo/bar.twig'' ''/'' \<and> \<not> isHandle demo ''/foo/bar.twig'' \<and>
      \<not> truthy_opt (precompiled \<lparr>precompiled = None, data = None\<rparr>)"
    by (simp add: isHandle_def demo_def truthy_opt_def)
  from fixIncludePath_unmatched_undefined [OF h, of demo "\<lparr>precompiled = None, data = None\<rparr>"] g
  show ?thesis by blast
qed

text \<open>
  C1, as the specification words it, asks for an explicit failure. At the rooted location
  \<^verbatim>\<open>/foo/bar.twig\<close>, none of whose segments is a first-level folder name, the function
  returns normally, and what it returns is \<^verbatim>\<open>undefined\<close>.
\<close>

theorem fixIncludePath_unmatched_counterexample:
  "startsWith ''/foo/bar.twig'' ''/'' \<and>
   set (js_split CHR ''/'' ''/foo/bar.twig'') \<inter> set firstLevelFolderNames = {} \<and>
   fixIncludePath demo ''/foo/bar.twig'' = Inr None \<and>
   \<not> isl (fixIncludePath demo ''/foo/bar.twig'')"
proof -
  have segs: "js_split CHR ''/'' ''/foo/bar.twig'' = ['''', ''foo'', ''bar.twig'']"
    by simp
  have "fixIncludePath demo ''/foo/bar.twig'' = Inr None"
    unfolding fixIncludePath_def segs by (simp add: firstLevelFolderNames_def)
  then show ?thesis
    unfolding segs by (simp add: firstLevelFolderNames_def)
qed

lemma fix_loop_matched:
  "\<exists>seg \<in> set chunks. seg \<in> set firstLevelFolderNames \<Longrightarrow>
   \<exists>i. fix_loop chunks (length chunks) = Some i"
proof (cases "fix_loop chunks (length chunks)")
  case None
  assume "\<exists>seg \<in> set chunks. seg \<in> set firstLevelFolderNames"
  then obtain seg where "seg \<in> set chunks" "seg \<in> set firstLevelFolderNames"
    by blast
  then obtain j where "j < length chunks" "chunks ! j \<in> set firstLevelFolderNames"
    by (metis in_set_conv_nth)
  with None show ?thesis by (simp add: fix_loop_None_iff)
qed simp

text \<open>
  C2 fails on the code. Whenever a segment of the location is a first-level folder name,
  the loop breaks and line 201 evaluates \<^verbatim>\<open>source.fullPath\<close>, a name that is not in
  scope in the method: \<^verbatim>\<open>fixIncludePath\<close> raises a \<open>ReferenceError\<close> and returns no
  path.
\<close>

theorem fixIncludePath_matched_raises:
  assumes "\<exists>seg \<in> set (js_split CHR ''/'' location). seg \<in> set firstLevelFolderNames"
  shows "fixIncludePath a location = Inl ReferenceError"
proof -
  from fix_loop_matched [OF assms] obtain i where
    "fix_loop (js_split CHR ''/'' location) (length (js_split CHR ''/'' location)) = Some i" ..
  then show ?thesis by (simp add: fixIncludePath_def)
qed

theorem fixIncludePath_matched_raises_witness:
  "js_split CHR ''/'' ''/atoms/button/button.twig'' = ['''', ''atoms'', ''button'', ''button.twig''] \<and>
   ''atoms'' \<in> set firstLevelFolderNames \<and>
   fixIncludePath demo ''/atoms/button/button.twig'' = Inl ReferenceError"
proof -
  have segs: "js_split CHR ''/'' ''/atoms/button/button.twig'' =
      ['''', ''atoms'', ''button'', ''button.twig'']"
    by simp
  have h: "\<exists>seg \<in> set (js_split CHR ''/'' ''/atoms/button/button.twig'').
      seg \<in> set firstLevelFolderNames"
    unfolding segs by (simp add: firstLevelFolderNames_def)
  from fixIncludePath_matched_raises [OF h, of demo] segs show ?thesis
    by (simp add: firstLevelFolderNames_def)
qed

subsection \<open>The loader\<close>

text \<open>
  C6. A location that does not start with a slash and is no handle is joined onto the
  library root as it is, and the view looked for is the one whose path is that join. The
  loader takes the location, its parameters and the adapter only: the template that holds
  the include has no part in the lookup.
\<close>

theorem loader_relative_joins_root:
  assumes "\<not> startsWith location ''/''"
    and "\<not> isHandle a location"
    and "\<not> truthy_opt (precompiled params)"
  shows "loader_view a location =
      Inr (List.find (\<lambda>v. path v = path_join a (fullPath a) location) (views a)) \<and>
    loader a location params =
      (case List.find (\<lambda>v. path v = path_join a (fullPath a) location) (views a) of
         None \<Rightarrow> Inl (notFound location)
       | Some view \<Rightarrow> Inr (params\<lparr>data := Some (content view)\<rparr>))"
proof -
  have "loader_view a location =
      Inr (List.find (\<lambda>v. path v = path_join a (fullPath a) location) (views a))"
    using assms(1,2) by (simp add: loader_view_def find_by_path_def)
  with assms(3) show ?thesis
    by (simp add: loader_def split: option.split)
qed

theorem loader_relative_joins_root_witness:
  "\<not> startsWith ''atoms/button/button.twig'' ''/'' \<and>
   loader_view demo ''atoms/button/button.twig'' = Inr (Some button_view) \<and>
   loader demo ''atoms/button/button.twig'' \<lparr>precompiled = None, data = None\<rparr> =
     Inr \<lparr>precompiled = None, data = Some (content button_view)\<rparr>"
proof -
  let ?loc = "''atoms/button/button.twig''"
  have r: "\<not> startsWith ?loc ''/''" by simp
  have h: "\<not> isHandle demo ?loc" by (simp add: isHandle_def demo_def)
  have p: "\<not> truthy_opt (precompiled \<lparr>precompiled = None, data = None\<rparr>)"
    by (simp add: truthy_opt_def)
  have f: "List.find (\<lambda>v. path v = path_join demo (fullPath demo) ?loc) (views demo) = Some button_view"
    by (simp add: demo_def button_view_def)
  from loader_relative_joins_root [OF r h p] f r show ?thesis by simp
qed

text \<open>
  C7 fails on the code for one kind of location. Without precompiled source, a location
  with a leading slash that has a first-level folder name among its segments makes the
  loader end in the \<open>ReferenceError\<close> of \<^verbatim>\<open>fixIncludePath\<close>, whether a view
  exists for it or not: line 36 calls \<^verbatim>\<open>fixIncludePath\<close> before any view is looked
  for. For every other location for which the lookup of its kind finds no view (by
  handle, by the joined path of a relative location, or a location with a leading slash
  and no such segment) the loader throws the error whose message names the location and
  tells to add a leading forward slash.
\<close>

theorem loader_not_found_unless_rooted_match:
  assumes "\<not> truthy_opt (precompiled params)"
  shows "(startsWith location ''/'' \<and>
      (\<exists>seg \<in> set (js_split CHR ''/'' location). seg \<in> set firstLevelFolderNames)
      \<longrightarrow> loader a location params = Inl ReferenceError) \<and>
    (\<not> (startsWith location ''/'' \<and>
        (\<exists>seg \<in> set (js_split CHR ''/'' location). seg \<in> set firstLevelFolderNames)) \<and>
     (isHandle a location \<longrightarrow> getView a location = None) \<and>
     (\<not> isHandle a location \<and> \<not> startsWith location ''/'' \<longrightarrow>
        find_by_path (views a) (Some (path_join a (fullPath a) location)) = None)
      \<longrightarrow> loader a location params =
        Inl (Error (''Template '' @ location @
          '' not found; make sure you add a leading forward slash to your path if you'' @
          [CHR 0x27] @
          ''re trying to include a component -> include /atoms/button/button.twig for instance'')))"
proof (intro conjI impI)
  assume "startsWith location ''/'' \<and>
      (\<exists>seg \<in> set (js_split CHR ''/'' location). seg \<in> set firstLevelFolderNames)"
  then have "loader_view a location = Inl ReferenceError"
    using fix_loop_matched [of "js_split CHR ''/'' location"]
    by (auto simp: loader_view_def fixIncludePath_def)
  with assms show "loader a location params = Inl ReferenceError"
    by (simp add: loader_def)
next
  assume h: "\<not> (startsWith location ''/'' \<and>
        (\<exists>seg \<in> set (js_split CHR ''/'' location). seg \<in> set firstLevelFolderNames)) \<and>
     (isHandle a location \<longrightarrow> getView a location = None) \<and>
     (\<not> isHandle a location \<and> \<not> startsWith location ''/'' \<longrightarrow>
        find_by_path (views a) (Some (path_join a (fullPath a) location)) = None)"
  have "loader_view a location = Inr None"
  proof (cases "startsWith location ''/''")
    case True
    with h have "\<forall>seg \<in> set (js_split CHR ''/'' location). seg \<notin> set firstLevelFolderNames"
      by blast
    then have "fix_loop (js_split CHR ''/'' location) (length (js_split CHR ''/'' location)) = None"
      by (simp add: fix_loop_None_iff)
    with True h show ?thesis
      by (simp add: loader_view_def fixIncludePath_def find_by_path_None)
  next
    case False
    with h show ?thesis by (simp add: loader_view_def)
  qed
  with assms show "loader a location params =
        Inl (Error (''Template '' @ location @
          '' not found; make sure you add a leading forward slash to your path if you'' @
          [CHR 0x27] @
          ''re trying to include a component -> include /atoms/button/button.twig for instance''))"
    by (simp add: loader_def notFound_def)
qed

theorem loader_not_found_unless_rooted_match_witness:
  "startsWith ''/atoms/none.twig'' ''/'' \<and>
   js_split CHR ''/'' ''/atoms/none.twig'' = ['''', ''atoms'', ''none.twig''] \<and>
   find_by_path (views demo) (Some ''/lib/atoms/none.twig'') = None \<and>
   loader demo ''/atoms/none.twig'' \<lparr>precompiled = None, data = None\<rparr> = Inl ReferenceError \<and>
   isHandle demo ''@nothing'' \<and>
   loader demo ''@nothing'' \<lparr>precompiled = None, data = None\<rparr> = Inl (notFound ''@nothing'') \<and>
   loader demo ''nowhere.twig'' \<lparr>precompiled = Some [], data = None\<rparr> =
     Inl (notFound ''nowhere.twig'') \<and>
   loader demo ''/foo/bar.twig'' \<lparr>precompiled = None, data = None\<rparr> =
     Inl (notFound ''/foo/bar.twig'')"
proof -
  let ?none = "\<lparr>precompiled = None, data = None\<rparr>"
  let ?empty = "\<lparr>precompiled = Some [], data = None\<rparr>"
  have p: "\<not> truthy_opt (precompiled ?none)" "\<not> truthy_opt (precompiled ?empty)"
    by (simp_all add: truthy_opt_def truthy_def)
  have segs: "js_split CHR ''/'' ''/atoms/none.twig'' = ['''', ''atoms'', ''none.twig'']"
    by simp
  have m: "startsWith ''/atoms/none.twig'' ''/'' \<and>
      (\<exists>seg \<in> set (js_split CHR ''/'' ''/atoms/none.twig''). seg \<in> set firstLevelFolderNames)"
    unfolding segs by (simp add: firstLevelFolderNames_def)
  have v: "find_by_path (views demo) (Some ''/lib/atoms/none.twig'') = None"
    by (simp add: find_by_path_def demo_def button_view_def card_view_def)
  have h1: "isHandle demo ''@nothing''" by (simp add: isHandle_def demo_def truthy_def)
  have n1: "\<not> startsWith ''@nothing'' ''/''" by simp
  have g1: "getView demo ''@nothing'' = None"
    by (simp add: demo_def button_view_def card_view_def)
  have h3: "\<not> isHandle demo ''nowhere.twig''" "\<not> startsWith ''nowhere.twig'' ''/''"
    by (simp_all add: isHandle_def demo_def)
  have g3: "find_by_path (views demo) (Some (path_join demo (fullPath demo) ''nowhere.twig'')) = None"
    by (simp add: find_by_path_def demo_def button_view_def card_view_def)
  have segs4: "js_split CHR ''/'' ''/foo/bar.twig'' = ['''', ''foo'', ''bar.twig'']"
    by simp
  have h4: "\<not> isHandle demo ''/foo/bar.twig''"
      "\<not> (\<exists>seg \<in> set (js_split CHR ''/'' ''/foo/bar.twig''). seg \<in> set firstLevelFolderNames)"
    unfolding segs4 by (simp_all add: isHandle_def demo_def firstLevelFolderNames_def)
  have "loader demo ''/atoms/none.twig'' ?none = Inl ReferenceError"
    using loader_not_found_unless_rooted_match [OF p(1), of "''/atoms/none.twig''" demo] m
    by blast
  moreover have "loader demo ''@nothing'' ?none = Inl (notFound ''@nothing'')"
    using loader_not_found_unless_rooted_match [OF p(1), of "''@nothing''" demo] h1 n1 g1
    by (simp add: notFound_def)
  moreover have "loader demo ''nowhere.twig'' ?empty = Inl (notFound ''nowhere.twig'')"
    using loader_not_found_unless_rooted_match [OF p(2), of "''nowhere.twig''" demo] h3 g3
    by (simp add: notFound_def)
  moreover have "loader demo ''/foo/bar.twig'' ?none = Inl (notFound ''/foo/bar.twig'')"
    using loader_not_found_unless_rooted_match [OF p(1), of "''/foo/bar.twig''" demo] h4
    by (simp add: notFound_def)
  ultimately show ?thesis using m segs v h1 by simp
qed

subsection \<open>Cache invalidation\<close>

text \<open>
  C5. After \<^verbatim>\<open>unCache\<close> has handled a view that carries a handle, the registry has
  no entry under the view's path relative to the library root and none under its handle;
  every other entry is as before. When neither entry exists the registry is left as it
  is, and handling the same view again changes nothing.
\<close>

theorem unCache_evicts:
  fixes registry :: "string \<rightharpoonup> 't"
  assumes "truthy (handle v)"
  shows "unCache a (ViewObject v) registry (path_relative a (fullPath a) (path v)) = None \<and>
    unCache a (ViewObject v) registry (handle v) = None \<and>
    (\<forall>key. key \<noteq> path_relative a (fullPath a) (path v) \<and> key \<noteq> handle v
       \<longrightarrow> unCache a (ViewObject v) registry key = registry key) \<and>
    (registry (path_relative a (fullPath a) (path v)) = None \<and> registry (handle v) = None
       \<longrightarrow> unCache a (ViewObject v) registry = registry) \<and>
    unCache a (ViewObject v) (unCache a (ViewObject v) registry) =
      unCache a (ViewObject v) registry"
  using assms by (auto simp: unCache_def Let_def fun_eq_iff)

theorem unCache_evicts_witness:
  "truthy (handle button_view) \<and>
   unCache demo (ViewObject button_view)
     [''atoms/button/button.twig'' \<mapsto> (1::nat), ''@button'' \<mapsto> 2, ''@card'' \<mapsto> 3]
     ''atoms/button/button.twig'' = None \<and>
   unCache demo (ViewObject button_view)
     [''atoms/button/button.twig'' \<mapsto> (1::nat), ''@button'' \<mapsto> 2, ''@card'' \<mapsto> 3]
     ''@button'' = None \<and>
   unCache demo (ViewObject button_view)
     [''atoms/button/button.twig'' \<mapsto> (1::nat), ''@button'' \<mapsto> 2, ''@card'' \<mapsto> 3]
     ''@card'' = Some 3 \<and>
   unCache demo (ViewObject button_view) [''@card'' \<mapsto> (3::nat)] = [''@card'' \<mapsto> 3]"
proof -
  let ?r = "[''atoms/button/button.twig'' \<mapsto> (1::nat), ''@button'' \<mapsto> 2, ''@card'' \<mapsto> 3]"
  let ?q = "[''@card'' \<mapsto> (3::nat)]"
  have t: "truthy (handle button_view)"
    by (simp add: button_view_def truthy_def)
  have p: "path_relative demo (fullPath demo) (path button_view) = ''atoms/button/button.twig''"
    by (simp add: demo_def button_view_def)
  have h: "handle button_view = ''@button''"
    by (simp add: button_view_def)
  have q: "?q (path_relative demo (fullPath demo) (path button_view)) = None \<and>
      ?q (handle button_view) = None"
    unfolding p h by simp
  have c: "''@card'' \<noteq> path_relative demo (fullPath demo) (path button_view) \<and>
      ''@card'' \<noteq> handle button_view"
    unfolding p h by simp
  from unCache_evicts [OF t, of demo ?r] unCache_evicts [OF t, of demo ?q] q c t
  show ?thesis unfolding p h by simp
qed

subsection \<open>Reading and assigning properties\<close>

lemma map_of_js_set: "map_of (js_set obj k v) = (map_of obj)(k \<mapsto> v)"
  by (induction obj) (auto simp: fun_eq_iff)

lemma js_get_js_set: "js_get (js_set obj k v) k' = (if k' = k then v else js_get obj k')"
  by (simp add: js_get_def map_of_js_set)

lemma js_set_twice: "js_set (js_set obj k v) k w = js_set obj k w"
  by (induction obj) auto

lemma map_fst_js_set:
  "map fst (js_set obj k v) = (if k \<in> fst ` set obj then map fst obj else map fst obj @ [k])"
proof (induction obj)
  case Nil
  show ?case by simp
next
  case (Cons e obj)
  obtain k' w where e: "e = (k', w)" by (cases e)
  show ?case
  proof (cases "k' = k")
    case True
    with e show ?thesis by simp
  next
    case False
    with e Cons show ?thesis by simp
  qed
qed

subsection \<open>The reserved keys\<close>

lemma length_setEnv: "length (setEnv key val c s) = length s"
  by (simp add: setEnv_def)

lemma setEnv_other: "x \<noteq> c \<Longrightarrow> setEnv key val c s ! x = s ! x"
  by (simp add: setEnv_def)

lemma setEnv_get:
  "c < length s \<Longrightarrow> js_get (setEnv key val c s ! c) k =
     (if k = key \<and> js_get (s ! c) key = Undefined then val else js_get (s ! c) k)"
  by (auto simp: setEnv_def js_get_js_set)

lemma render_get:
  assumes "c < length s"
  shows "js_get (render a meta0 c s ! c) k =
     (if \<not> pristine (cfg a) \<and> js_get (s ! c) k = Undefined
      then (case map_of (reserved a meta0) k of None \<Rightarrow> Undefined | Some val \<Rightarrow> val)
      else js_get (s ! c) k)"
  using assms
  by (simp add: render_def Let_def setEnv_get length_setEnv reserved_def)

lemma render_frame:
  "length (render a meta0 c s) = length s \<and> (\<forall>x. x \<noteq> c \<longrightarrow> render a meta0 c s ! x = s ! x)"
  by (simp add: render_def Let_def length_setEnv setEnv_other)

lemma page_render:
  "render demo (Some page_meta) 0 page_store =
     [[(''title'', Str ''Home''), (''_env'', Null), (''_self'', Ref 1), (''_config'', Ref 2)],
      [(''handle'', Str ''card'')],
      [(''project'', Str ''demo'')]]"
  by (simp add: render_def setEnv_def js_get_def meta_or_empty_def page_meta_def
      page_store_def demo_def Let_def)

text \<open>
  C8. For each of \<^verbatim>\<open>_self\<close>, \<^verbatim>\<open>_target\<close>, \<^verbatim>\<open>_env\<close> and \<^verbatim>\<open>_config\<close>,
  with the value \<^verbatim>\<open>render\<close> has for it: a key that the context already holds (its
  value is not \<^verbatim>\<open>undefined\<close>) keeps its value, and whenever the value under the key
  changes, the key was absent, the adapter is not pristine, and the new value is the one
  \<^verbatim>\<open>render\<close> has for the key.
\<close>

theorem render_injects_only_absent:
  assumes "c < length s" and "(key, val) \<in> set (reserved a meta0)"
  shows "(js_get (s ! c) key \<noteq> Undefined \<longrightarrow>
       js_get (render a meta0 c s ! c) key = js_get (s ! c) key) \<and>
    (js_get (render a meta0 c s ! c) key \<noteq> js_get (s ! c) key \<longrightarrow>
       js_get (s ! c) key = Undefined \<and> \<not> pristine (cfg a) \<and>
       js_get (render a meta0 c s ! c) key = val)"
proof -
  have "map_of (reserved a meta0) key = Some val"
    using assms(2) by (auto simp: reserved_def)
  then show ?thesis
    using render_get [OF assms(1), of a meta0 key] by (auto split: if_splits)
qed

theorem render_injects_only_absent_witness:
  "(''_env'', Str ''server'') \<in> set (reserved demo (Some page_meta)) \<and>
   js_get (page_store ! 0) ''_env'' = Null \<and>
   js_get (render demo (Some page_meta) 0 page_store ! 0) ''_env'' = Null \<and>
   (''_self'', Ref 1) \<in> set (reserved demo (Some page_meta)) \<and>
   js_get (page_store ! 0) ''_self'' = Undefined \<and>
   js_get (render demo (Some page_meta) 0 page_store ! 0) ''_self'' =
     Ref 1"
proof -
  have c: "0 < length page_store" by (simp add: page_store_def)
  have e: "(''_env'', Str ''server'') \<in> set (reserved demo (Some page_meta))"
    by (simp add: reserved_def meta_or_empty_def page_meta_def)
  have f: "(''_self'', Ref 1) \<in> set (reserved demo (Some page_meta))"
    by (simp add: reserved_def meta_or_empty_def page_meta_def)
  have p: "js_get (page_store ! 0) ''_env'' = Null" "js_get (page_store ! 0) ''_self'' = Undefined"
    by (simp_all add: page_store_def js_get_def)
  have changed: "js_get (render demo (Some page_meta) 0 page_store ! 0) ''_self'' \<noteq>
      js_get (page_store ! 0) ''_self''"
    unfolding page_render by (simp add: page_store_def js_get_def)
  from render_injects_only_absent [OF c e] render_injects_only_absent [OF c f] e f p changed
  show ?thesis by simp
qed

text \<open>
  C10. The reserved keys are assigned on the object the caller passed: \<^verbatim>\<open>render\<close>
  creates no object and leaves every other object alone, and on a non-pristine adapter
  each reserved key that was absent is, afterwards, a key of the caller's own object with
  the value \<^verbatim>\<open>render\<close> has for it. All other keys of the object read as before.
\<close>

theorem render_mutates_in_place:
  assumes "c < length s"
  shows "length (render a meta0 c s) = length s \<and>
    (\<forall>x. x \<noteq> c \<longrightarrow> render a meta0 c s ! x = s ! x) \<and>
    (\<forall>key val. \<not> pristine (cfg a) \<and> (key, val) \<in> set (reserved a meta0) \<and>
        js_get (s ! c) key = Undefined
       \<longrightarrow> js_get (render a meta0 c s ! c) key = val) \<and>
    (\<forall>key. key \<notin> fst ` set (reserved a meta0)
       \<longrightarrow> js_get (render a meta0 c s ! c) key = js_get (s ! c) key)"
proof (intro conjI allI impI)
  show "length (render a meta0 c s) = length s"
    using render_frame by blast
next
  fix x assume "x \<noteq> c"
  then show "render a meta0 c s ! x = s ! x"
    using render_frame by blast
next
  fix key val
  assume h: "\<not> pristine (cfg a) \<and> (key, val) \<in> set (reserved a meta0) \<and>
      js_get (s ! c) key = Undefined"
  then have "map_of (reserved a meta0) key = Some val"
    by (auto simp: reserved_def)
  with h show "js_get (render a meta0 c s ! c) key = val"
    using render_get [OF assms, of a meta0 key] by simp
next
  fix key
  assume "key \<notin> fst ` set (reserved a meta0)"
  then have "map_of (reserved a meta0) key = None"
    by (simp add: map_of_eq_None_iff)
  then show "js_get (render a meta0 c s ! c) key = js_get (s ! c) key"
    using render_get [OF assms, of a meta0 key] by simp
qed

theorem render_mutates_in_place_witness:
  "length (render demo (Some page_meta) 0 page_store) = 3 \<and>
   render demo (Some page_meta) 0 page_store ! 1 = page_store ! 1 \<and>
   js_get (page_store ! 0) ''_config'' = Undefined \<and>
   js_get (render demo (Some page_meta) 0 page_store ! 0) ''_config'' =
     Ref 2 \<and>
   js_get (render demo (Some page_meta) 0 page_store ! 0) ''title'' = Str ''Home'' \<and>
   render demo (Some page_meta) 0 page_store ! 0 \<noteq> page_store ! 0"
proof -
  have c: "0 < length page_store" by (simp add: page_store_def)
  have f: "\<not> pristine (cfg demo) \<and>
      (''_config'', Ref 2) \<in> set (reserved demo (Some page_meta)) \<and>
      js_get (page_store ! 0) ''_config'' = Undefined"
    by (simp add: reserved_def demo_def page_store_def js_get_def)
  have t: "''title'' \<notin> fst ` set (reserved demo (Some page_meta))"
    by (simp add: reserved_def)
  have g: "js_get (page_store ! 0) ''title'' = Str ''Home''" "length page_store = 3"
    by (simp_all add: page_store_def js_get_def)
  have d: "render demo (Some page_meta) 0 page_store ! 0 \<noteq> page_store ! 0"
    unfolding page_render by (simp add: page_store_def)
  from render_mutates_in_place [OF c, of demo "Some page_meta"] f t g d
  show ?thesis by auto
qed

subsection \<open>The key index\<close>

lemma lodash_keys_js_set_keys:
  "lodash_keys (js_set obj ''_keys'' v) =
     (if isArrayLike obj \<or> ''_keys'' \<in> fst ` set obj then lodash_keys obj
      else lodash_keys obj @ [StrKey ''_keys''])"
  by (simp add: lodash_keys_def isArrayLike_def js_get_js_set map_fst_js_set)

lemma computed_keys_js_set_keys: "computed_keys (js_set obj ''_keys'' v) = computed_keys obj"
  by (simp add: computed_keys_def lodash_keys_js_set_keys lodash_compact_def)

lemma isArrayLike_js_set_keys: "isArrayLike (js_set obj ''_keys'' v) = isArrayLike obj"
  by (simp add: isArrayLike_def js_get_js_set)

lemma compact_iteratee_idx: "lodash_compact (map keyIteratee (map IdxKey xs)) = []"
  by (induction xs) (simp_all add: lodash_compact_def)

lemma compact_iteratee_str:
  "lodash_compact (map keyIteratee (map StrKey ks)) =
     map Str (filter (\<lambda>key. \<not> startsWith key ''_'' \<and> key \<noteq> []) ks)"
  by (induction ks) (simp_all add: lodash_compact_def)

lemma computed_keys_eq:
  "computed_keys obj =
     Arr (map Str (if isArrayLike obj then []
                   else filter (\<lambda>key. \<not> startsWith key ''_'' \<and> key \<noteq> []) (map fst obj)))"
proof (cases "isArrayLike obj")
  case True
  then obtain n where "js_get obj ''length'' = Num n"
    by (auto simp: isArrayLike_def isLength_def split: jsval.splits)
  with True show ?thesis
    by (simp add: computed_keys_def lodash_keys_def compact_iteratee_idx del: map_map)
next
  case False
  then show ?thesis
    by (simp add: computed_keys_def lodash_keys_def compact_iteratee_str del: map_map)
qed

lemma map_raises_js_set_keys: "map_raises (js_set obj ''_keys'' v) = map_raises obj"
  by (simp add: map_raises_def isArrayLike_js_set_keys js_get_js_set)

lemma with_keys_twice: "with_keys (with_keys obj) = with_keys obj"
  by (simp add: with_keys_def computed_keys_js_set_keys js_set_twice)

lemma js_get_with_keys:
  "js_get (with_keys obj) key = (if key = ''_keys'' then computed_keys obj else js_get obj key)"
  by (simp add: with_keys_def js_get_js_set)

lemma with_keys_facts:
  "computed_keys (with_keys obj) = computed_keys obj"
  "isArrayLike (with_keys obj) = isArrayLike obj"
  "map_raises (with_keys obj) = map_raises obj"
  by (simp_all add: with_keys_def computed_keys_js_set_keys isArrayLike_js_set_keys
      map_raises_js_set_keys)

lemma nested_object_underscore: "startsWith key ''_'' \<Longrightarrow> nested_object key val = None"
  by (simp add: nested_object_def split: jsval.split)

lemma nested_object_with_keys:
  "nested_object key (js_get (with_keys obj) key) = nested_object key (js_get obj key)"
  by (cases "key = ''_keys''") (simp_all add: js_get_with_keys nested_object_underscore)

text \<open>What two objects have in common when the assignment of \<^verbatim>\<open>_keys\<close> makes them equal.\<close>

lemma with_keys_eqD:
  assumes "with_keys obj = with_keys obj'"
  shows "computed_keys obj = computed_keys obj'"
    and "isArrayLike obj = isArrayLike obj'"
    and "map_raises obj = map_raises obj'"
    and "nested_object key (js_get obj key) = nested_object key (js_get obj' key)"
    and "key \<noteq> ''_keys'' \<Longrightarrow> js_get obj key = js_get obj' key"
proof -
  show "computed_keys obj = computed_keys obj'"
    using assms with_keys_facts(1) by metis
  show "isArrayLike obj = isArrayLike obj'"
    using assms with_keys_facts(2) by metis
  show "map_raises obj = map_raises obj'"
    using assms with_keys_facts(3) by metis
  show "nested_object key (js_get obj key) = nested_object key (js_get obj' key)"
    using assms nested_object_with_keys by metis
  show "js_get obj key = js_get obj' key" if "key \<noteq> ''_keys''"
    using assms that js_get_with_keys [of obj key] js_get_with_keys [of obj' key] by simp
qed

lemma same_but_keys_refl: "same_but_keys s s"
  by (simp add: same_but_keys_def)

lemma same_but_keys_sym: "same_but_keys s t \<Longrightarrow> same_but_keys t s"
  by (simp add: same_but_keys_def)

lemma same_but_keys_trans: "same_but_keys s t \<Longrightarrow> same_but_keys t u \<Longrightarrow> same_but_keys s u"
  by (simp add: same_but_keys_def)

lemma same_but_keys_update: "same_but_keys s (s[x := with_keys (s ! x)])"
proof -
  have "with_keys (s ! y) = with_keys (s[x := with_keys (s ! x)] ! y)" if "y < length s" for y
    using that by (cases "y = x") (simp_all add: with_keys_twice)
  then show ?thesis by (simp add: same_but_keys_def)
qed

lemma same_but_keys_length: "same_but_keys s t \<Longrightarrow> length t = length s"
  by (simp add: same_but_keys_def)

lemma same_but_keys_nth:
  "same_but_keys s t \<Longrightarrow> x < length s \<Longrightarrow> with_keys (s ! x) = with_keys (t ! x)"
  by (simp add: same_but_keys_def)

lemma setKeys_Suc:
  "obj < length s \<Longrightarrow>
   setKeys (Suc depth) obj s =
     (if map_raises (s ! obj) then Inl RangeError
      else if isArrayLike (s ! obj) then Inr (s[obj := with_keys (s ! obj)])
      else setKeys_each depth (map fst (with_keys (s ! obj))) obj (s[obj := with_keys (s ! obj)]))"
  by (simp add: Let_def with_keys_def isArrayLike_js_set_keys)

lemma setKeys_keeps_but_keys:
  "setKeys depth obj s = Inr s' \<Longrightarrow> same_but_keys s s'"
  "setKeys_each depth keys obj s = Inr s' \<Longrightarrow> same_but_keys s s'"
proof (induction depth obj s and depth keys obj s arbitrary: s' and s'
    rule: setKeys_setKeys_each.induct)
  case (1 obj s)
  then show ?case by simp
next
  case (2 depth obj s)
  let ?s1 = "s[obj := js_set (s ! obj) ''_keys'' (computed_keys (s ! obj))]"
  have s1: "same_but_keys s ?s1"
    using same_but_keys_update [of s obj] by (simp add: with_keys_def)
  from "2.prems" have nr: "\<not> map_raises (s ! obj)"
    by (auto split: if_splits)
  show ?case
  proof (cases "isArrayLike (?s1 ! obj)")
    case True
    with "2.prems" nr have "s' = ?s1" by (simp add: Let_def)
    with s1 show ?thesis by simp
  next
    case False
    with "2.prems" nr have "setKeys_each depth (map fst (?s1 ! obj)) obj ?s1 = Inr s'"
      by (simp add: Let_def)
    from "2.IH" [OF nr refl False this] s1 show ?thesis
      by (rule same_but_keys_trans [rotated])
  qed
next
  case (3 depth obj s)
  then show ?case by (simp add: same_but_keys_refl)
next
  case (4 depth key keys obj s)
  show ?case
  proof (cases "nested_object key (js_get (s ! obj) key)")
    case None
    with "4.prems" have "setKeys_each depth keys obj s = Inr s'" by simp
    from "4.IH"(1) [OF None this] show ?thesis .
  next
    case (Some nested)
    with "4.prems" obtain s1 where s1: "setKeys depth nested s = Inr s1"
        and rest: "setKeys_each depth keys obj s1 = Inr s'"
      by (auto split: sum.splits)
    from "4.IH"(2) [OF Some s1] have "same_but_keys s s1" .
    moreover from "4.IH"(3) [OF Some s1 rest] have "same_but_keys s1 s'" .
    ultimately show ?thesis by (rule same_but_keys_trans)
  qed
qed

lemma raised_simps [simp]:
  "raised (Inl err) = Some err"
  "raised (Inr v) = None"
  by (simp_all add: raised_def)

lemma raised_None_iff: "raised r = None \<longleftrightarrow> (\<exists>v. r = Inr v)"
  by (cases r) simp_all

lemma follows_same_but_keys:
  "same_but_keys s t \<Longrightarrow> x < length s \<Longrightarrow> follows t x = follows s x"
  using with_keys_eqD(4) [OF same_but_keys_nth, of s t x]
  by (simp add: follows_def)

lemma well_linked_same_but_keys:
  "same_but_keys s t \<Longrightarrow> well_linked s \<Longrightarrow> well_linked t"
  by (simp add: well_linked_def follows_same_but_keys same_but_keys_length)

lemma well_linked_nested:
  "well_linked s \<Longrightarrow> obj < length s \<Longrightarrow>
   nested_object key (js_get (s ! obj) key) = Some nested \<Longrightarrow> nested < length s"
  by (auto simp: well_linked_def follows_def)

lemma setKeys_visits_Suc:
  "obj < length s \<Longrightarrow>
   setKeys_visits (Suc depth) obj s =
     obj #
     (if map_raises (s ! obj) \<or> isArrayLike (s ! obj) then []
      else each_visits depth (map fst (with_keys (s ! obj))) obj (s[obj := with_keys (s ! obj)]))"
  by (simp add: Let_def with_keys_def isArrayLike_js_set_keys)

text \<open>
  What a call does, other than to the values under \<^verbatim>\<open>_keys\<close>, depends on the store
  only up to those values.
\<close>

lemma setKeys_determined:
  "same_but_keys s t \<Longrightarrow> obj < length s \<Longrightarrow> well_linked s \<Longrightarrow>
     setKeys_visits depth obj t = setKeys_visits depth obj s \<and>
     raised (setKeys depth obj t) = raised (setKeys depth obj s)"
  "same_but_keys s t \<Longrightarrow> obj < length s \<Longrightarrow> well_linked s \<Longrightarrow>
     each_visits depth keys obj t = each_visits depth keys obj s \<and>
     raised (setKeys_each depth keys obj t) = raised (setKeys_each depth keys obj s)"
proof (induction depth obj s and depth keys obj s arbitrary: t and t
    rule: setKeys_setKeys_each.induct)
  case (1 obj s)
  show ?case by simp
next
  case (2 depth obj s)
  note sk = \<open>same_but_keys s t\<close> and valid = \<open>obj < length s\<close> and wl = \<open>well_linked s\<close>
  from sk valid have valid': "obj < length t"
    by (simp add: same_but_keys_length)
  from sk valid have w: "with_keys (s ! obj) = with_keys (t ! obj)"
    by (rule same_but_keys_nth)
  note same = with_keys_eqD(2,3) [OF w]
  let ?s1 = "s[obj := with_keys (s ! obj)]" and ?t1 = "t[obj := with_keys (t ! obj)]"
  show ?case
  proof (cases "map_raises (s ! obj) \<or> isArrayLike (s ! obj)")
    case True
    with same show ?thesis
      by (auto simp: setKeys_Suc [OF valid] setKeys_Suc [OF valid']
          setKeys_visits_Suc [OF valid] setKeys_visits_Suc [OF valid']
          simp del: setKeys.simps(2) setKeys_visits.simps(2))
  next
    case False
    have x: "?s1 = s[obj := js_set (s ! obj) ''_keys'' (computed_keys (s ! obj))]"
      by (simp add: with_keys_def)
    have at: "?s1 ! obj = with_keys (s ! obj)"
      using valid by simp
    have "same_but_keys ?s1 s"
      by (rule same_but_keys_sym) (rule same_but_keys_update)
    then have "same_but_keys ?s1 t"
      using sk by (rule same_but_keys_trans)
    then have sk1: "same_but_keys ?s1 ?t1"
      using same_but_keys_update by (rule same_but_keys_trans)
    have wl1: "well_linked ?s1"
      using same_but_keys_update wl by (rule well_linked_same_but_keys)
    from False have "\<not> map_raises (s ! obj)" "\<not> isArrayLike (?s1 ! obj)"
      by (simp_all add: at with_keys_facts)
    from "2.IH" [OF this(1) x this(2) sk1 _ wl1] valid
    have "each_visits depth (map fst (with_keys (s ! obj))) obj ?t1 =
        each_visits depth (map fst (with_keys (s ! obj))) obj ?s1 \<and>
      raised (setKeys_each depth (map fst (with_keys (s ! obj))) obj ?t1) =
        raised (setKeys_each depth (map fst (with_keys (s ! obj))) obj ?s1)"
      by (simp add: at)
    with False same w show ?thesis
      by (simp add: setKeys_Suc [OF valid] setKeys_Suc [OF valid']
          setKeys_visits_Suc [OF valid] setKeys_visits_Suc [OF valid']
          del: setKeys.simps(2) setKeys_visits.simps(2))
  qed
next
  case (3 depth obj s)
  show ?case by simp
next
  case (4 depth key keys obj s)
  note sk = \<open>same_but_keys s t\<close> and valid = \<open>obj < length s\<close> and wl = \<open>well_linked s\<close>
  from sk valid have w: "with_keys (s ! obj) = with_keys (t ! obj)"
    by (rule same_but_keys_nth)
  have n: "nested_object key (js_get (t ! obj) key) = nested_object key (js_get (s ! obj) key)"
    using with_keys_eqD(4) [OF w] by simp
  show ?case
  proof (cases "nested_object key (js_get (s ! obj) key)")
    case None
    from "4.IH"(1) [OF None sk valid wl] None n show ?thesis by simp
  next
    case (Some nested)
    from wl valid Some have nv: "nested < length s"
      by (rule well_linked_nested)
    from "4.IH"(2) [OF Some sk nv wl]
    have v: "setKeys_visits depth nested t = setKeys_visits depth nested s"
      and r: "raised (setKeys depth nested t) = raised (setKeys depth nested s)"
      by simp_all
    show ?thesis
    proof (cases "setKeys depth nested s")
      case (Inl err)
      with r have "setKeys depth nested t = Inl err"
        by (cases "setKeys depth nested t") simp_all
      with Inl Some n v show ?thesis by simp
    next
      case (Inr s1)
      with r obtain t1 where t1: "setKeys depth nested t = Inr t1"
        by (cases "setKeys depth nested t") simp_all
      from Inr have k1: "same_but_keys s s1" by (rule setKeys_keeps_but_keys)
      from t1 have k2: "same_but_keys t t1" by (rule setKeys_keeps_but_keys)
      have sk1: "same_but_keys s1 t1"
        using same_but_keys_sym [OF k1] same_but_keys_trans [OF sk k2]
        by (rule same_but_keys_trans)
      have valid1: "obj < length s1"
        using k1 valid by (simp add: same_but_keys_length)
      have wl1: "well_linked s1"
        using k1 wl by (rule well_linked_same_but_keys)
      from "4.IH"(3) [OF Some Inr sk1 valid1 wl1] Inr t1 Some n v show ?thesis by simp
    qed
  qed
qed

text \<open>A call that returns has assigned \<^verbatim>\<open>_keys\<close> on the objects it visited, and nothing else.\<close>

lemma setKeys_shape:
  "obj < length s \<Longrightarrow> well_linked s \<Longrightarrow> setKeys depth obj s = Inr s' \<Longrightarrow>
     set (setKeys_visits depth obj s) \<subseteq> {..<length s} \<and>
     (\<forall>x < length s. s' ! x =
        (if x \<in> set (setKeys_visits depth obj s) then with_keys (s ! x) else s ! x))"
  "obj < length s \<Longrightarrow> well_linked s \<Longrightarrow> setKeys_each depth keys obj s = Inr s' \<Longrightarrow>
     set (each_visits depth keys obj s) \<subseteq> {..<length s} \<and>
     (\<forall>x < length s. s' ! x =
        (if x \<in> set (each_visits depth keys obj s) then with_keys (s ! x) else s ! x))"
proof (induction depth obj s and depth keys obj s arbitrary: s' and s'
    rule: setKeys_setKeys_each.induct)
  case (1 obj s)
  then show ?case by simp
next
  case (2 depth obj s)
  note valid = \<open>obj < length s\<close> and wl = \<open>well_linked s\<close>
  let ?s1 = "s[obj := with_keys (s ! obj)]"
  have x: "?s1 = s[obj := js_set (s ! obj) ''_keys'' (computed_keys (s ! obj))]"
    by (simp add: with_keys_def)
  have at: "?s1 ! obj = with_keys (s ! obj)"
    using valid by simp
  from "2.prems"(3) have nr: "\<not> map_raises (s ! obj)"
    by (auto split: if_splits)
  show ?case
  proof (cases "isArrayLike (s ! obj)")
    case True
    with "2.prems"(3) nr valid have "s' = ?s1"
      by (simp add: setKeys_Suc del: setKeys.simps(2))
    with True nr valid show ?thesis
      by (simp add: setKeys_visits_Suc nth_list_update del: setKeys_visits.simps(2))
  next
    case False
    then have nal: "\<not> isArrayLike (?s1 ! obj)"
      by (simp add: at with_keys_facts)
    from False "2.prems"(3) nr valid
    have run: "setKeys_each depth (map fst (?s1 ! obj)) obj ?s1 = Inr s'"
      by (simp add: setKeys_Suc at del: setKeys.simps(2))
    have wl1: "well_linked ?s1"
      using same_but_keys_update wl by (rule well_linked_same_but_keys)
    from "2.IH" [OF nr x nal _ wl1 run] valid
    have sub: "set (each_visits depth (map fst (?s1 ! obj)) obj ?s1) \<subseteq> {..<length s}"
      and sh: "\<forall>x < length s. s' ! x =
        (if x \<in> set (each_visits depth (map fst (?s1 ! obj)) obj ?s1)
         then with_keys (?s1 ! x) else ?s1 ! x)"
      by simp_all
    have v: "setKeys_visits (Suc depth) obj s =
        obj # each_visits depth (map fst (?s1 ! obj)) obj ?s1"
      using False nr valid by (simp add: setKeys_visits_Suc at del: setKeys_visits.simps(2))
    have "s' ! y = (if y \<in> set (setKeys_visits (Suc depth) obj s)
        then with_keys (s ! y) else s ! y)" if "y < length s" for y
    proof (cases "y = obj")
      case True
      with sh that at show ?thesis
        unfolding v by (simp add: with_keys_twice)
    next
      case False
      with sh that show ?thesis
        unfolding v by simp
    qed
    with sub valid show ?thesis
      unfolding v by simp
  qed
next
  case (3 depth obj s)
  then show ?case by simp
next
  case (4 depth key keys obj s)
  note valid = \<open>obj < length s\<close> and wl = \<open>well_linked s\<close>
  show ?case
  proof (cases "nested_object key (js_get (s ! obj) key)")
    case None
    with "4.prems"(3) have "setKeys_each depth keys obj s = Inr s'" by simp
    from "4.IH"(1) [OF None valid wl this] None show ?thesis by simp
  next
    case (Some nested)
    with "4.prems"(3) obtain s1 where s1: "setKeys depth nested s = Inr s1"
        and rest: "setKeys_each depth keys obj s1 = Inr s'"
      by (auto split: sum.splits)
    from wl valid Some have nv: "nested < length s"
      by (rule well_linked_nested)
    from s1 have k1: "same_but_keys s s1" by (rule setKeys_keeps_but_keys)
    then have len: "length s1 = length s" by (rule same_but_keys_length)
    have wl1: "well_linked s1"
      using k1 wl by (rule well_linked_same_but_keys)
    let ?V1 = "set (setKeys_visits depth nested s)"
    let ?V2 = "set (each_visits depth keys obj s1)"
    from "4.IH"(2) [OF Some nv wl s1]
    have sub1: "?V1 \<subseteq> {..<length s}"
      and sh1: "\<forall>x < length s. s1 ! x = (if x \<in> ?V1 then with_keys (s ! x) else s ! x)"
      by simp_all
    from "4.IH"(3) [OF Some s1 _ wl1 rest] valid len
    have sub2: "?V2 \<subseteq> {..<length s}"
      and sh2: "\<forall>x < length s. s' ! x = (if x \<in> ?V2 then with_keys (s1 ! x) else s1 ! x)"
      by simp_all
    have v: "each_visits depth (key # keys) obj s =
        setKeys_visits depth nested s @ each_visits depth keys obj s1"
      using Some s1 by simp
    have "s' ! y = (if y \<in> set (each_visits depth (key # keys) obj s)
        then with_keys (s ! y) else s ! y)" if "y < length s" for y
      using sh1 sh2 that unfolding v by (simp add: with_keys_twice)
    with sub1 sub2 show ?thesis
      unfolding v by simp
  qed
qed

lemma nested_object_Some_iff:
  "nested_object key val = Some n \<longleftrightarrow> val = Ref n \<and> \<not> startsWith key ''_''"
  by (simp add: nested_object_def split: jsval.split)

lemma setKeys_visits_valid:
  "obj < length s \<Longrightarrow> well_linked s \<Longrightarrow> set (setKeys_visits depth obj s) \<subseteq> {..<length s}"
  "obj < length s \<Longrightarrow> well_linked s \<Longrightarrow> set (each_visits depth keys obj s) \<subseteq> {..<length s}"
proof (induction depth obj s and depth keys obj s rule: setKeys_setKeys_each.induct)
  case (1 obj s)
  show ?case by simp
next
  case (2 depth obj s)
  note valid = \<open>obj < length s\<close> and wl = \<open>well_linked s\<close>
  let ?s1 = "s[obj := with_keys (s ! obj)]"
  have x1: "?s1 = s[obj := js_set (s ! obj) ''_keys'' (computed_keys (s ! obj))]"
    by (simp add: with_keys_def)
  have at: "?s1 ! obj = with_keys (s ! obj)"
    using valid by simp
  have wl1: "well_linked ?s1"
    using same_but_keys_update wl by (rule well_linked_same_but_keys)
  show ?case
  proof (cases "map_raises (s ! obj) \<or> isArrayLike (s ! obj)")
    case True
    with valid show ?thesis
      by (simp add: setKeys_visits_Suc del: setKeys_visits.simps(2))
  next
    case False
    then have "\<not> map_raises (s ! obj)" "\<not> isArrayLike (?s1 ! obj)"
      by (simp_all add: at with_keys_facts)
    from "2.IH" [OF this(1) x1 this(2) _ wl1] valid False show ?thesis
      by (simp add: setKeys_visits_Suc at del: setKeys_visits.simps(2))
  qed
next
  case (3 depth obj s)
  show ?case by simp
next
  case (4 depth key keys obj s)
  note valid = \<open>obj < length s\<close> and wl = \<open>well_linked s\<close>
  show ?case
  proof (cases "nested_object key (js_get (s ! obj) key)")
    case None
    from "4.IH"(1) [OF None valid wl] None show ?thesis by simp
  next
    case (Some nested)
    from wl valid Some have nv: "nested < length s"
      by (rule well_linked_nested)
    note v1 = "4.IH"(2) [OF Some nv wl]
    show ?thesis
    proof (cases "setKeys depth nested s")
      case (Inl err)
      with v1 Some show ?thesis by simp
    next
      case (Inr s1)
      then have k1: "same_but_keys s s1" by (rule setKeys_keeps_but_keys)
      then have len: "length s1 = length s" by (rule same_but_keys_length)
      have wl1: "well_linked s1"
        using k1 wl by (rule well_linked_same_but_keys)
      from "4.IH"(3) [OF Some Inr _ wl1] valid len v1 Some Inr show ?thesis by simp
    qed
  qed
qed

text \<open>
  Every object that is visited, except the outermost, is what a visited object holds
  under a key that does not start with an underscore.
\<close>

lemma setKeys_visits_reached:
  "obj < length s \<Longrightarrow> well_linked s \<Longrightarrow> x \<in> set (setKeys_visits depth obj s) \<Longrightarrow>
     x = obj \<or> (\<exists>y \<in> set (setKeys_visits depth obj s). x \<in> follows s y)"
  "obj < length s \<Longrightarrow> well_linked s \<Longrightarrow> x \<in> set (each_visits depth keys obj s) \<Longrightarrow>
     x \<in> follows s obj \<or> (\<exists>y \<in> set (each_visits depth keys obj s). x \<in> follows s y)"
proof (induction depth obj s and depth keys obj s rule: setKeys_setKeys_each.induct)
  case (1 obj s)
  then show ?case by simp
next
  case (2 depth obj s)
  note valid = \<open>obj < length s\<close> and wl = \<open>well_linked s\<close>
  let ?s1 = "s[obj := with_keys (s ! obj)]"
  have x1: "?s1 = s[obj := js_set (s ! obj) ''_keys'' (computed_keys (s ! obj))]"
    by (simp add: with_keys_def)
  have at: "?s1 ! obj = with_keys (s ! obj)"
    using valid by simp
  have k: "same_but_keys s ?s1" by (rule same_but_keys_update)
  show ?case
  proof (cases "x = obj")
    case True
    then show ?thesis by simp
  next
    case False
    with "2.prems"(3) valid
    have nr: "\<not> map_raises (s ! obj)" and nal: "\<not> isArrayLike (s ! obj)"
      and xin: "x \<in> set (each_visits depth (map fst (?s1 ! obj)) obj ?s1)"
      by (auto simp: setKeys_visits_Suc at simp del: setKeys_visits.simps(2) split: if_splits)
    have v: "setKeys_visits (Suc depth) obj s =
        obj # each_visits depth (map fst (?s1 ! obj)) obj ?s1"
      using nr nal valid by (simp add: setKeys_visits_Suc at del: setKeys_visits.simps(2))
    have wl1: "well_linked ?s1"
      using k wl by (rule well_linked_same_but_keys)
    have nal1: "\<not> isArrayLike (?s1 ! obj)"
      using nal by (simp add: at with_keys_facts)
    from "2.IH" [OF nr x1 nal1 _ wl1 xin] valid
    have "x \<in> follows ?s1 obj \<or>
      (\<exists>y \<in> set (each_visits depth (map fst (?s1 ! obj)) obj ?s1). x \<in> follows ?s1 y)"
      by simp
    then show ?thesis
    proof
      assume "x \<in> follows ?s1 obj"
      then have "x \<in> follows s obj"
        using follows_same_but_keys [OF k valid] by simp
      then show ?thesis unfolding v by auto
    next
      assume "\<exists>y \<in> set (each_visits depth (map fst (?s1 ! obj)) obj ?s1). x \<in> follows ?s1 y"
      then obtain y where y: "y \<in> set (each_visits depth (map fst (?s1 ! obj)) obj ?s1)"
          "x \<in> follows ?s1 y"
        by blast
      from setKeys_visits_valid(2) [OF _ wl1, of obj] valid y(1) have "y < length s"
        by auto
      then have "x \<in> follows s y"
        using follows_same_but_keys [OF k] y(2) by simp
      with y(1) show ?thesis unfolding v by auto
    qed
  qed
next
  case (3 depth obj s)
  then show ?case by simp
next
  case (4 depth key keys obj s)
  note valid = \<open>obj < length s\<close> and wl = \<open>well_linked s\<close>
  show ?case
  proof (cases "nested_object key (js_get (s ! obj) key)")
    case None
    with "4.prems"(3) have "x \<in> set (each_visits depth keys obj s)" by simp
    from "4.IH"(1) [OF None valid wl this] None show ?thesis by simp
  next
    case (Some nested)
    from wl valid Some have nv: "nested < length s"
      by (rule well_linked_nested)
    from Some have fo: "nested \<in> follows s obj"
      by (auto simp: follows_def)
    let ?V1 = "set (setKeys_visits depth nested s)"
    from "4.prems"(3) Some consider (first) "x \<in> ?V1"
      | (later) s1 where "setKeys depth nested s = Inr s1" "x \<in> set (each_visits depth keys obj s1)"
      by (cases "setKeys depth nested s") auto
    then show ?thesis
    proof cases
      case first
      have in_all: "?V1 \<subseteq> set (each_visits depth (key # keys) obj s)"
        using Some by simp
      from "4.IH"(2) [OF Some nv wl first] fo in_all show ?thesis by blast
    next
      case later
      from later(1) have k1: "same_but_keys s s1" by (rule setKeys_keeps_but_keys)
      then have len: "length s1 = length s" by (rule same_but_keys_length)
      have wl1: "well_linked s1"
        using k1 wl by (rule well_linked_same_but_keys)
      have in_all: "set (each_visits depth keys obj s1) \<subseteq> set (each_visits depth (key # keys) obj s)"
        using Some later(1) by simp
      from "4.IH"(3) [OF Some later(1) _ wl1 later(2)] valid len
      have "x \<in> follows s1 obj \<or> (\<exists>y \<in> set (each_visits depth keys obj s1). x \<in> follows s1 y)"
        by simp
      then show ?thesis
      proof
        assume "x \<in> follows s1 obj"
        then show ?thesis
          using follows_same_but_keys [OF k1 valid] by simp
      next
        assume "\<exists>y \<in> set (each_visits depth keys obj s1). x \<in> follows s1 y"
        then obtain y where y: "y \<in> set (each_visits depth keys obj s1)" "x \<in> follows s1 y"
          by blast
        from setKeys_visits_valid(2) [OF _ wl1, of obj] valid len y(1) have "y < length s"
          by auto
        then have "x \<in> follows s y"
          using follows_same_but_keys [OF k1] y(2) by simp
        with y(1) in_all show ?thesis by blast
      qed
    qed
  qed
qed

lemma js_get_in_set: "js_get obj key = Ref n \<Longrightarrow> (key, Ref n) \<in> set obj"
  by (auto simp: js_get_def split: option.splits dest: map_of_SomeD)

lemma follows_subset_refs:
  "follows s x \<subseteq> (\<Union>(key, val) \<in> set (s ! x). refs val)"
proof
  fix n
  assume "n \<in> follows s x"
  then obtain key where "js_get (s ! x) key = Ref n"
    by (auto simp: follows_def nested_object_Some_iff)
  then have "(key, Ref n) \<in> set (s ! x)"
    by (rule js_get_in_set)
  then show "n \<in> (\<Union>(key, val) \<in> set (s ! x). refs val)"
    by force
qed

lemma well_linkedI:
  assumes "\<forall>obj \<in> set s. \<forall>(key, val) \<in> set obj. refs val \<subseteq> {..<length s}"
  shows "well_linked s"
  unfolding well_linked_def
proof (intro allI impI)
  fix x
  assume "x < length s"
  then have "s ! x \<in> set s" by simp
  with assms have "(\<Union>(key, val) \<in> set (s ! x). refs val) \<subseteq> {..<length s}"
    by blast
  with follows_subset_refs [of s x] show "follows s x \<subseteq> {..<length s}"
    by blast
qed

lemma setKeys_each_leaf:
  "follows s obj = {} \<Longrightarrow> setKeys_each depth keys obj s = Inr s"
proof (induction keys)
  case Nil
  show ?case by simp
next
  case (Cons key keys)
  from Cons.prems have "nested_object key (js_get (s ! obj) key) = None"
    by (cases "nested_object key (js_get (s ! obj) key)") (auto simp: follows_def)
  with Cons show ?case by simp
qed

lemma setKeys_leaf:
  assumes "obj < length s" and "\<not> map_raises (s ! obj)" and "follows s obj = {}"
  shows "setKeys (Suc depth) obj s = Inr (s[obj := with_keys (s ! obj)])"
proof -
  have "follows (s[obj := with_keys (s ! obj)]) obj = {}"
    using follows_same_but_keys [OF same_but_keys_update assms(1)] assms(3) by simp
  then show ?thesis
    using assms(1,2) by (simp add: setKeys_Suc setKeys_each_leaf del: setKeys.simps(2))
qed

text \<open>
  C4. When a call of \<^verbatim>\<open>setKeys\<close> returns, a second call on the same object returns
  too and changes nothing, so every \<^verbatim>\<open>_keys\<close> list keeps its order, and it visits
  the objects the first call visited, in the same order. Each visited object holds under
  \<^verbatim>\<open>_keys\<close> its own non-empty keys that do not start with an underscore, in their
  order (and nothing when it is array-like), so no key that starts with an underscore is
  in the list. A visited object other than the outermost is held by a visited object
  under a key that does not start with an underscore: the walk never goes down from a
  key with an underscore. An object that is not visited is left as it is, and no object
  changes under a key other than \<^verbatim>\<open>_keys\<close>. A call on an object that holds no
  nested object under such a key, and whose \<^verbatim>\<open>length\<close> does not make \<^verbatim>\<open>_.map\<close>
  raise, returns whenever the stack has room for it.
\<close>

theorem setKeys_idempotent_private_keys_skipped:
  assumes "obj < length s" and "well_linked s"
  shows "(setKeys depth obj s = Inr s' \<longrightarrow>
      setKeys depth obj s' = Inr s' \<and>
      setKeys_visits depth obj s' = setKeys_visits depth obj s \<and>
      (\<forall>x \<in> set (setKeys_visits depth obj s).
         js_get (s' ! x) ''_keys'' =
           Arr (map Str (if isArrayLike (s ! x) then []
                else filter (\<lambda>key. \<not> startsWith key ''_'' \<and> key \<noteq> []) (map fst (s ! x)))) \<and>
         (\<forall>key ks. startsWith key ''_'' \<and> js_get (s' ! x) ''_keys'' = Arr ks
            \<longrightarrow> Str key \<notin> set ks) \<and>
         (x = obj \<or>
          (\<exists>y \<in> set (setKeys_visits depth obj s). \<exists>key.
             \<not> startsWith key ''_'' \<and> js_get (s ! y) key = Ref x))) \<and>
      (\<forall>x < length s. x \<notin> set (setKeys_visits depth obj s) \<longrightarrow> s' ! x = s ! x) \<and>
      (\<forall>x < length s. \<forall>key. key \<noteq> ''_keys'' \<longrightarrow> js_get (s' ! x) key = js_get (s ! x) key)) \<and>
    (\<not> map_raises (s ! obj) \<and> follows s obj = {} \<longrightarrow>
      setKeys (Suc depth) obj s =
        Inr (s[obj := js_set (s ! obj) ''_keys'' (computed_keys (s ! obj))]))"
proof (intro conjI impI)
  assume "\<not> map_raises (s ! obj) \<and> follows s obj = {}"
  then show "setKeys (Suc depth) obj s =
      Inr (s[obj := js_set (s ! obj) ''_keys'' (computed_keys (s ! obj))])"
    using setKeys_leaf [OF assms(1)] by (simp add: with_keys_def del: setKeys.simps(2))
next
  assume run: "setKeys depth obj s = Inr s'"
  let ?V = "set (setKeys_visits depth obj s)"
  from run have k: "same_but_keys s s'" by (rule setKeys_keeps_but_keys)
  then have len: "length s' = length s" by (rule same_but_keys_length)
  have wl': "well_linked s'"
    using k assms(2) by (rule well_linked_same_but_keys)
  from setKeys_shape(1) [OF assms run]
  have valid: "?V \<subseteq> {..<length s}"
    and shape: "\<forall>x < length s. s' ! x = (if x \<in> ?V then with_keys (s ! x) else s ! x)"
    by simp_all
  from setKeys_determined(1) [OF k assms]
  have visits: "setKeys_visits depth obj s' = setKeys_visits depth obj s"
    and "raised (setKeys depth obj s') = raised (setKeys depth obj s)"
    by simp_all
  with run obtain t where again: "setKeys depth obj s' = Inr t"
    by (auto simp: raised_None_iff)
  then have "same_but_keys s' t" by (rule setKeys_keeps_but_keys)
  then have len_t: "length t = length s'" by (rule same_but_keys_length)
  from setKeys_shape(1) [OF _ wl' again] assms(1) len visits
  have "\<forall>x < length s. t ! x = (if x \<in> ?V then with_keys (s' ! x) else s' ! x)"
    by simp
  with shape have "\<forall>x < length s. t ! x = s' ! x"
    by (simp add: with_keys_twice)
  with len len_t have "t = s'"
    by (simp add: nth_equalityI)
  with again show "setKeys depth obj s' = Inr s'" by simp
  show "setKeys_visits depth obj s' = setKeys_visits depth obj s"
    by (rule visits)
  show "\<forall>x < length s. x \<notin> ?V \<longrightarrow> s' ! x = s ! x"
    using shape by simp
  show "\<forall>x < length s. \<forall>key. key \<noteq> ''_keys'' \<longrightarrow> js_get (s' ! x) key = js_get (s ! x) key"
    using with_keys_eqD(5) [OF same_but_keys_nth [OF k]] by simp
  show "\<forall>x \<in> ?V.
      js_get (s' ! x) ''_keys'' =
        Arr (map Str (if isArrayLike (s ! x) then []
             else filter (\<lambda>key. \<not> startsWith key ''_'' \<and> key \<noteq> []) (map fst (s ! x)))) \<and>
      (\<forall>key ks. startsWith key ''_'' \<and> js_get (s' ! x) ''_keys'' = Arr ks
         \<longrightarrow> Str key \<notin> set ks) \<and>
      (x = obj \<or>
       (\<exists>y \<in> ?V. \<exists>key. \<not> startsWith key ''_'' \<and> js_get (s ! y) key = Ref x))"
  proof
    fix x
    assume x: "x \<in> ?V"
    with valid have "x < length s" by auto
    with shape x have "s' ! x = with_keys (s ! x)" by simp
    then have keys: "js_get (s' ! x) ''_keys'' =
        Arr (map Str (if isArrayLike (s ! x) then []
             else filter (\<lambda>key. \<not> startsWith key ''_'' \<and> key \<noteq> []) (map fst (s ! x))))"
      by (simp add: js_get_with_keys computed_keys_eq)
    have "Str key \<notin> set ks"
      if "startsWith key ''_'' \<and> js_get (s' ! x) ''_keys'' = Arr ks" for key ks
      using that unfolding keys by (auto split: if_splits)
    moreover from setKeys_visits_reached(1) [OF assms x]
    have "x = obj \<or>
       (\<exists>y \<in> ?V. \<exists>key. \<not> startsWith key ''_'' \<and> js_get (s ! y) key = Ref x)"
      by (auto simp: follows_def nested_object_Some_iff)
    ultimately show "js_get (s' ! x) ''_keys'' =
        Arr (map Str (if isArrayLike (s ! x) then []
             else filter (\<lambda>key. \<not> startsWith key ''_'' \<and> key \<noteq> []) (map fst (s ! x)))) \<and>
      (\<forall>key ks. startsWith key ''_'' \<and> js_get (s' ! x) ''_keys'' = Arr ks
         \<longrightarrow> Str key \<notin> set ks) \<and>
      (x = obj \<or>
       (\<exists>y \<in> ?V. \<exists>key. \<not> startsWith key ''_'' \<and> js_get (s ! y) key = Ref x))"
      using keys by blast
  qed
qed

lemma shared_store_run:
  "setKeys 3 0 shared_store =
     Inr [[(''title'', Str ''Home''), (''_meta'', Ref 1), (''item'', Ref 2), (''also'', Ref 2),
           (''_keys'', Arr [Str ''title'', Str ''item'', Str ''also''])],
          [(''draft'', Bool True)],
          [(''name'', Str ''n''), (''_id'', Num 7), (''_keys'', Arr [Str ''name''])]]"
  unfolding shared_store_def by code_simp

lemma shared_store_visits: "setKeys_visits 3 0 shared_store = [0, 2, 2]"
  unfolding shared_store_def by code_simp

lemma shared_store_linked: "well_linked shared_store"
  by (rule well_linkedI) (simp add: shared_store_def)

theorem setKeys_idempotent_private_keys_skipped_witness:
  "setKeys 3 0 shared_store =
     Inr [[(''title'', Str ''Home''), (''_meta'', Ref 1), (''item'', Ref 2), (''also'', Ref 2),
           (''_keys'', Arr [Str ''title'', Str ''item'', Str ''also''])],
          [(''draft'', Bool True)],
          [(''name'', Str ''n''), (''_id'', Num 7), (''_keys'', Arr [Str ''name''])]] \<and>
   setKeys 3 0
     [[(''title'', Str ''Home''), (''_meta'', Ref 1), (''item'', Ref 2), (''also'', Ref 2),
       (''_keys'', Arr [Str ''title'', Str ''item'', Str ''also''])],
      [(''draft'', Bool True)],
      [(''name'', Str ''n''), (''_id'', Num 7), (''_keys'', Arr [Str ''name''])]] =
     Inr [[(''title'', Str ''Home''), (''_meta'', Ref 1), (''item'', Ref 2), (''also'', Ref 2),
           (''_keys'', Arr [Str ''title'', Str ''item'', Str ''also''])],
          [(''draft'', Bool True)],
          [(''name'', Str ''n''), (''_id'', Num 7), (''_keys'', Arr [Str ''name''])]] \<and>
   setKeys_visits 3 0 shared_store = [0, 2, 2] \<and>
   setKeys_visits 3 0
     [[(''title'', Str ''Home''), (''_meta'', Ref 1), (''item'', Ref 2), (''also'', Ref 2),
       (''_keys'', Arr [Str ''title'', Str ''item'', Str ''also''])],
      [(''draft'', Bool True)],
      [(''name'', Str ''n''), (''_id'', Num 7), (''_keys'', Arr [Str ''name''])]] = [0, 2, 2] \<and>
   js_get (shared_store ! 0) ''_meta'' = Ref 1 \<and>
   setKeys 1 1 shared_store =
     Inr [[(''title'', Str ''Home''), (''_meta'', Ref 1), (''item'', Ref 2), (''also'', Ref 2)],
          [(''draft'', Bool True), (''_keys'', Arr [Str ''draft''])],
          [(''name'', Str ''n''), (''_id'', Num 7)]]"
proof -
  let ?s' = "[[(''title'', Str ''Home''), (''_meta'', Ref 1), (''item'', Ref 2), (''also'', Ref 2),
       (''_keys'', Arr [Str ''title'', Str ''item'', Str ''also''])],
      [(''draft'', Bool True)],
      [(''name'', Str ''n''), (''_id'', Num 7), (''_keys'', Arr [Str ''name''])]]"
  have v: "0 < length shared_store" "1 < length shared_store"
    by (simp_all add: shared_store_def)
  have m: "js_get (shared_store ! 0) ''_meta'' = Ref 1"
    by (simp add: shared_store_def js_get_def)
  have leaf: "\<not> map_raises (shared_store ! 1) \<and> follows shared_store 1 = {}"
    by (auto simp: shared_store_def map_raises_def isArrayLike_def isLength_def js_get_def
        follows_def nested_object_Some_iff)
  have upd: "shared_store[1 := js_set (shared_store ! 1) ''_keys'' (computed_keys (shared_store ! 1))] =
      [[(''title'', Str ''Home''), (''_meta'', Ref 1), (''item'', Ref 2), (''also'', Ref 2)],
       [(''draft'', Bool True), (''_keys'', Arr [Str ''draft''])],
       [(''name'', Str ''n''), (''_id'', Num 7)]]"
    unfolding shared_store_def by code_simp
  from setKeys_idempotent_private_keys_skipped [OF v(1) shared_store_linked, of 3 ?s']
    shared_store_run shared_store_visits
  have "setKeys 3 0 ?s' = Inr ?s' \<and> setKeys_visits 3 0 ?s' = [0, 2, 2]"
    by simp
  moreover from setKeys_idempotent_private_keys_skipped [OF v(2) shared_store_linked, of 0] leaf
  have "setKeys 1 1 shared_store =
      Inr (shared_store[1 := js_set (shared_store ! 1) ''_keys'' (computed_keys (shared_store ! 1))])"
    by simp
  ultimately show ?thesis
    using shared_store_run shared_store_visits m upd by simp
qed

subsection \<open>Copies and frames\<close>
















subsection \<open>The patched context\<close>











end
